theory Spec2Isabelle
  imports Complex_Main "HOL-Library.AList" "HOL-Library.Multiset"
begin

section \<open>Time formatting\<close>

text \<open>
  Durations are whole, non-negative numbers of seconds and are modelled as \<open>nat\<close>.
  \<open>toString\<close> is the decimal rendering that JavaScript's \<open>Number.prototype.toString\<close>
  and template literals give for such a number.
\<close>

definition digit_char :: "nat \<Rightarrow> char" where
  "digit_char d = ''0123456789'' ! d"

function toString :: "nat \<Rightarrow> string" where
  "toString n = (if n < 10 then [digit_char n] else toString (n div 10) @ [digit_char (n mod 10)])"
  by pat_completeness auto
termination
  by (relation "measure id") auto

declare toString.simps [simp del]

text \<open>\<open>String.prototype.padStart\<close> with a one-character fill string.\<close>

definition padStart :: "nat \<Rightarrow> char \<Rightarrow> string \<Rightarrow> string" where
  "padStart n c s = replicate (n - length s) c @ s"

text \<open>PlankTimer.tsx, \<open>formatTime\<close>: both fields go through \<open>padStart(2, "0")\<close>.\<close>

definition formatTime_PlankTimer :: "nat \<Rightarrow> string" where
  "formatTime_PlankTimer t =
     padStart 2 (CHR ''0'') (toString (t div 60)) @ '':'' @ padStart 2 (CHR ''0'') (toString (t mod 60))"

text \<open>UserStats.tsx, \<open>formatTime\<close>.\<close>

definition formatTime_UserStats :: "nat \<Rightarrow> string" where
  "formatTime_UserStats sec =
     (let m = sec div 60; s = sec mod 60
      in toString m @ '':'' @ (if s < 10 then ''0'' @ toString s else toString s))"

text \<open>Leaderboard.tsx, \<open>formatTime\<close>.\<close>

definition formatTime_Leaderboard :: "nat \<Rightarrow> string" where
  "formatTime_Leaderboard totalSeconds =
     (let minutes = totalSeconds div 60; seconds = totalSeconds mod 60
      in toString minutes @ '':'' @ (if seconds < 10 then ''0'' @ toString seconds else toString seconds))"

text \<open>PlankDetailDialog.tsx, \<open>formatTime\<close>.\<close>

definition formatTime_PlankDetailDialog :: "nat \<Rightarrow> string" where
  "formatTime_PlankDetailDialog t =
     (let m = t div 60; s = t mod 60
      in toString m @ '':'' @ (if s < 10 then ''0'' @ toString s else toString s))"

section \<open>The session timer (PlankTimer.tsx)\<close>

text \<open>
  The component's \<open>useState\<close> cells form one record. Numbers entered or counted by the
  timer are whole and are modelled as \<open>int\<close>; a captured image is identified by a number.
\<close>

datatype mode = stopwatch | timer

datatype blob = Blob nat

record timer_state =
  mode :: mode
  seconds :: int
  initialSeconds :: int
  inputMin :: int
  inputSec :: int
  isActive :: bool
  isCompleted :: bool
  vowCheat :: bool
  useCamera :: bool
  snapshots :: "blob list"

definition init :: timer_state where
  "init = \<lparr>mode = stopwatch, seconds = 0, initialSeconds = 0, inputMin = 0, inputSec = 0,
            isActive = False, isCompleted = False, vowCheat = False, useCamera = False,
            snapshots = []\<rparr>"

text \<open>
  What a handler does to the outside world, in order: notifications, console output and
  the requests sent to the hosted backend.
\<close>

datatype effect =
    ToastError string
  | ToastSuccess string
  | ConsoleError string
  | InsertPlank string int
  | UploadPhoto string blob
  | UpdatePhotos nat "string list"

text \<open>
  The backend's answers are parameters of the model: \<open>getUser\<close> is \<open>None\<close> when the
  call reports an error or no user; \<open>insertPlank\<close> is \<open>None\<close> when the insert reports an
  error or returns no row, otherwise the new row's id; \<open>upload\<close> answers a file name and
  an image with an error message (\<open>Inl\<close>) or the stored path (\<open>Inr\<close>); \<open>updatePhotos\<close>
  is \<open>False\<close> when the update reports an error.
\<close>

record backend =
  getUser :: "string option"
  insertPlank :: "string \<Rightarrow> int \<Rightarrow> nat option"
  upload :: "string \<Rightarrow> blob \<Rightarrow> string + string"
  updatePhotos :: "nat \<Rightarrow> string list \<Rightarrow> bool"

text \<open>
  \<open>captureSnapshot\<close>: the argument is what \<open>canvas.toBlob\<close> delivers; \<open>None\<close> stands
  for both silent exits (no video element, or a null blob). \<open>slice(0, 3)\<close> is \<open>take 3\<close>.
\<close>

definition captureSnapshot :: "blob option \<Rightarrow> timer_state \<Rightarrow> timer_state" where
  "captureSnapshot c s =
     (case c of
        None \<Rightarrow> s
      | Some b \<Rightarrow> s\<lparr>snapshots := take 3 (snapshots s @ [b])\<rparr>)"

text \<open>
  \<open>handleStart\<close>. The first notification's text is abridged to ASCII (the source spells
  it with a typographic apostrophe).
\<close>

definition handleStart :: "timer_state \<Rightarrow> timer_state \<times> effect list" where
  "handleStart s =
     (if \<not> vowCheat s then (s, [ToastError ''You must swear you will not cheat before you start!''])
      else
        let total = (if mode s = timer then inputMin s * 60 + inputSec s else 0) in
        if mode s = timer \<and> total \<le> 0 then (s, [ToastError ''Please set a positive timer.''])
        else
          let s1 = (if mode s = timer then s\<lparr>initialSeconds := total, seconds := total\<rparr>
                    else s\<lparr>seconds := 0\<rparr>)
          in (s1\<lparr>snapshots := [], isActive := True, isCompleted := False\<rparr>, []))"

definition handlePause :: "timer_state \<Rightarrow> timer_state" where
  "handlePause s = s\<lparr>isActive := False\<rparr>"

definition handleReset :: "timer_state \<Rightarrow> timer_state" where
  "handleReset s =
     s\<lparr>isActive := False, isCompleted := False, seconds := 0, inputMin := 0, inputSec := 0,
       vowCheat := False, useCamera := False, snapshots := []\<rparr>"

text \<open>
  The upload loop of \<open>handleComplete\<close>, from index \<open>i\<close>: the paths pushed to
  \<open>photoPaths\<close> and the effects, in order. A failed upload logs and notifies, and the
  loop goes on.
\<close>

fun uploadSnapshots :: "backend \<Rightarrow> string \<Rightarrow> nat \<Rightarrow> nat \<Rightarrow> blob list \<Rightarrow> string list \<times> effect list" where
  "uploadSnapshots be uid plankId i [] = ([], [])"
| "uploadSnapshots be uid plankId i (b # bs) =
     (let fileName = uid @ ''_'' @ toString plankId @ ''_'' @ toString i @ ''.png'';
          (paths, effs) = uploadSnapshots be uid plankId (i + 1) bs
      in case upload be fileName b of
           Inl message \<Rightarrow>
             (paths, UploadPhoto fileName b # ConsoleError ''Storage upload error:''
                       # ToastError (''Could not upload photo. '' @ message) # effs)
         | Inr path \<Rightarrow> (path # paths, UploadPhoto fileName b # effs))"

text \<open>
  \<open>handleComplete\<close> is a closure: it reads \<open>mode\<close>, \<open>initialSeconds\<close>, \<open>seconds\<close> and
  \<open>snapshots\<close> of the render that created it (\<open>view\<close>), and its setters act on the
  current state \<open>s\<close>. The "Save plank" button calls the closure of the current render
  (\<open>view = s\<close>); the one-second interval calls the closure of the render in which the
  interval was set up.
\<close>

definition handleComplete :: "backend \<Rightarrow> timer_state \<Rightarrow> timer_state \<Rightarrow> timer_state \<times> effect list" where
  "handleComplete be view s =
     (let duration = (if mode view = timer then initialSeconds view else seconds view);
          s' = s\<lparr>isActive := False, isCompleted := True, seconds := duration\<rparr>
      in case getUser be of
           None \<Rightarrow> (s', [ToastError ''You must be logged in.''])
         | Some uid \<Rightarrow>
            (case insertPlank be uid duration of
               None \<Rightarrow> (s', [InsertPlank uid duration, ConsoleError ''plankErr'',
                              ToastError ''Could not save plank.''])
             | Some plankId \<Rightarrow>
                 let (photoPaths, effs) = uploadSnapshots be uid plankId 0 (snapshots view)
                 in (s', [InsertPlank uid duration] @ effs @
                         (if photoPaths \<noteq> []
                          then UpdatePhotos plankId photoPaths #
                               (if updatePhotos be plankId photoPaths then []
                                else [ConsoleError ''Failed to attach photos to plank:''])
                          else []) @
                         [ToastSuccess ''Plank saved!''])))"

text \<open>
  One firing of the one-second interval. In timer mode at \<open>s \<le> 1\<close> the updater calls
  \<open>handleComplete\<close>, whose \<open>setSeconds(duration)\<close> is queued after the updater's own
  result \<open>0\<close> and therefore is the value that stays.
\<close>

definition tick :: "backend \<Rightarrow> timer_state \<Rightarrow> timer_state \<Rightarrow> timer_state \<times> effect list" where
  "tick be view s =
     (if mode view = timer then
        (if seconds s \<le> 1 then handleComplete be view (s\<lparr>seconds := 0\<rparr>)
         else (s\<lparr>seconds := seconds s - 1\<rparr>, []))
      else (s\<lparr>seconds := seconds s + 1\<rparr>, []))"

text \<open>
  The interval exists only while \<open>isActive\<close> holds (the effect's guard, and its cleanup
  on every change of \<open>isActive\<close>): \<open>ticks be view n s\<close> lets up to \<open>n\<close> seconds pass.
\<close>

fun ticks :: "backend \<Rightarrow> timer_state \<Rightarrow> nat \<Rightarrow> timer_state \<Rightarrow> timer_state \<times> effect list" where
  "ticks be view 0 s = (s, [])"
| "ticks be view (Suc n) s =
     (if isActive s
      then (let (s1, e1) = tick be view s; (s2, e2) = ticks be view n s1 in (s2, e1 @ e2))
      else (s, []))"

text \<open>
  The mode tabs: rendered only while \<open>\<not> isCompleted\<close>, and the click handler is
  \<open>!isActive && setMode(m)\<close>.
\<close>

definition clickMode :: "mode \<Rightarrow> timer_state \<Rightarrow> timer_state" where
  "clickMode m s =
     (if \<not> isCompleted s then (if \<not> isActive s then s\<lparr>mode := m\<rparr> else s) else s)"

text \<open>The insert requests and the uploaded images among a handler's effects.\<close>

fun inserted :: "effect list \<Rightarrow> (string \<times> int) list" where
  "inserted [] = []"
| "inserted (InsertPlank uid d # es) = (uid, d) # inserted es"
| "inserted (e # es) = inserted es"

fun uploaded :: "effect list \<Rightarrow> blob list" where
  "uploaded [] = []"
| "uploaded (UploadPhoto f b # es) = b # uploaded es"
| "uploaded (e # es) = uploaded es"

fun updates :: "effect list \<Rightarrow> (nat \<times> string list) list" where
  "updates [] = []"
| "updates (UpdatePhotos p ps # es) = (p, ps) # updates es"
| "updates (e # es) = updates es"

fun error_toasts :: "effect list \<Rightarrow> string list" where
  "error_toasts [] = []"
| "error_toasts (ToastError m # es) = m # error_toasts es"
| "error_toasts (e # es) = error_toasts es"

fun success_toasts :: "effect list \<Rightarrow> string list" where
  "success_toasts [] = []"
| "success_toasts (ToastSuccess m # es) = m # success_toasts es"
| "success_toasts (e # es) = success_toasts es"

subsection \<open>The component as a transition system\<close>

text \<open>
  The running component is the current state together with the render captured by the
  one-second interval and the captures in flight. The interval is set up by the effect
  with dependencies \<open>[isActive, mode]\<close>; \<open>mode\<close> cannot change while active, so the
  captured render is the one that follows a successful \<open>handleStart\<close>.

  \<open>captureSnapshot\<close> is asynchronous: its call draws the frame and hands it to
  \<open>canvas.toBlob\<close>, whose callback appends the image later, whatever the state is by
  then (nothing cancels it). \<open>inFlight\<close> lists the calls whose callback has not run yet,
  each with what the callback will deliver.
\<close>

record app =
  st :: timer_state
  intervalView :: timer_state
  inFlight :: "blob option list"

definition init_app :: app where
  "init_app = \<lparr>st = init, intervalView = init, inFlight = []\<rparr>"

text \<open>
  \<open>Snap c\<close>: the capture effect or its 10-second interval calls \<open>captureSnapshot\<close>, and
  \<open>c\<close> is what that call will deliver. \<open>ToBlob n\<close>: the callback of the \<open>n\<close>-th call in
  flight runs.
\<close>

datatype event =
    ClickStart | ClickPause | ClickReset | ClickSave | ClickMode mode
  | CheckVow bool | ToggleCamera | CameraDenied | TypeMin int | TypeSec int
  | Tick | Snap "blob option" | ToBlob nat

text \<open>
  An event acts only where the JSX renders its control (or where its effect is running):
  Start while not active and not completed; Pause while active; "Save plank" in stopwatch
  mode with \<open>seconds > 0\<close> while not active; Reset on the completed screen, in stopwatch mode
  with \<open>seconds > 0\<close>, or in timer mode with a non-zero input while not active; the vow
  checkbox and the inputs while not active; the camera switch is disabled while active;
  a tick needs the one-second interval (\<open>isActive\<close>) and a call of \<open>captureSnapshot\<close>
  needs the capture effect (\<open>isActive\<close> and \<open>useCamera\<close>). The callback of a call in
  flight has no guard.
\<close>

definition step :: "backend \<Rightarrow> app \<Rightarrow> event \<Rightarrow> app \<times> effect list" where
  "step be a e =
     (let s = st a in
      case e of
        ClickStart \<Rightarrow>
          if \<not> isCompleted s \<and> \<not> isActive s
          then (let (s', effs) = handleStart s
                in (a\<lparr>st := s', intervalView := (if isActive s' then s' else intervalView a)\<rparr>,
                    effs))
          else (a, [])
      | ClickPause \<Rightarrow>
          if \<not> isCompleted s \<and> isActive s then (a\<lparr>st := handlePause s\<rparr>, []) else (a, [])
      | ClickReset \<Rightarrow>
          if isCompleted s \<or> (mode s = stopwatch \<and> seconds s > 0)
             \<or> (mode s = timer \<and> (inputMin s > 0 \<or> inputSec s > 0) \<and> \<not> isActive s)
          then (a\<lparr>st := handleReset s\<rparr>, []) else (a, [])
      | ClickSave \<Rightarrow>
          if \<not> isCompleted s \<and> mode s = stopwatch \<and> seconds s > 0 \<and> \<not> isActive s
          then (let (s', effs) = handleComplete be s s in (a\<lparr>st := s'\<rparr>, effs))
          else (a, [])
      | ClickMode m \<Rightarrow> (a\<lparr>st := clickMode m s\<rparr>, [])
      | CheckVow b \<Rightarrow>
          if \<not> isCompleted s \<and> \<not> isActive s then (a\<lparr>st := s\<lparr>vowCheat := b\<rparr>\<rparr>, []) else (a, [])
      | ToggleCamera \<Rightarrow>
          if \<not> isCompleted s \<and> \<not> isActive s
          then (a\<lparr>st := s\<lparr>useCamera := \<not> useCamera s\<rparr>\<rparr>, []) else (a, [])
      | CameraDenied \<Rightarrow>
          if useCamera s
          then (a\<lparr>st := s\<lparr>useCamera := False\<rparr>\<rparr>, [ToastError ''Camera access denied.''])
          else (a, [])
      | TypeMin n \<Rightarrow>
          if \<not> isCompleted s \<and> mode s = timer \<and> \<not> isActive s
          then (a\<lparr>st := s\<lparr>inputMin := n\<rparr>\<rparr>, []) else (a, [])
      | TypeSec n \<Rightarrow>
          if \<not> isCompleted s \<and> mode s = timer \<and> \<not> isActive s
          then (a\<lparr>st := s\<lparr>inputSec := n\<rparr>\<rparr>, []) else (a, [])
      | Tick \<Rightarrow>
          if isActive s
          then (let (s', effs) = tick be (intervalView a) s in (a\<lparr>st := s'\<rparr>, effs))
          else (a, [])
      | Snap c \<Rightarrow>
          if isActive s \<and> useCamera s then (a\<lparr>inFlight := inFlight a @ [c]\<rparr>, []) else (a, [])
      | ToBlob n \<Rightarrow>
          if n < length (inFlight a)
          then (a\<lparr>st := captureSnapshot (inFlight a ! n) s,
                  inFlight := take n (inFlight a) @ drop (Suc n) (inFlight a)\<rparr>, [])
          else (a, []))"

fun run :: "backend \<Rightarrow> app \<Rightarrow> event list \<Rightarrow> app \<times> effect list" where
  "run be a [] = (a, [])"
| "run be a (e # es) =
     (let (a1, e1) = step be a e; (a2, e2) = run be a1 es in (a2, e1 @ e2))"

section \<open>Ranking (Leaderboard.tsx, UserStats.tsx)\<close>

text \<open>
  A fetched row of the \<open>planks\<close> table. A \<open>Record<string, V>\<close> is an association list in
  insertion order: assigning to an existing key keeps its place, a new key goes to the
  end (\<open>AList.update\<close>), and \<open>Object.entries\<close> is the list itself. (User ids are UUID
  strings; JavaScript would move keys that are array indices to the front.)
\<close>

record plank_row =
  user_id :: string
  duration_s :: int

text \<open>
  \<open>Array.prototype.sort\<close> with a comparator is a stable sort; it is modelled by insertion
  sort, an element going in front of the first one it does not compare greater than.
\<close>

fun insert_by :: "('a \<Rightarrow> 'a \<Rightarrow> int) \<Rightarrow> 'a \<Rightarrow> 'a list \<Rightarrow> 'a list" where
  "insert_by cmp x [] = [x]"
| "insert_by cmp x (y # ys) = (if cmp x y \<le> 0 then x # y # ys else y # insert_by cmp x ys)"

definition array_sort :: "('a \<Rightarrow> 'a \<Rightarrow> int) \<Rightarrow> 'a list \<Rightarrow> 'a list" where
  "array_sort cmp xs = foldr (insert_by cmp) xs []"

text \<open>\<open>findIndex\<close>: the first position satisfying the predicate, or \<open>-1\<close>.\<close>

fun findIndex :: "('a \<Rightarrow> bool) \<Rightarrow> 'a list \<Rightarrow> int" where
  "findIndex P [] = - 1"
| "findIndex P (x # xs) =
     (if P x then 0 else (let r = findIndex P xs in if r < 0 then - 1 else r + 1))"

text \<open>
  \<open>Math.max(...durations)\<close> on a non-empty array (every group is created by a push, so
  the empty case, JavaScript's \<open>-Infinity\<close>, does not arise and is left out).
\<close>

fun math_max :: "int list \<Rightarrow> int" where
  "math_max (d # ds) = fold max ds d"

text \<open>Leaderboard.tsx, step 3: \<open>stats[p.user_id] = stats[p.user_id] || []\<close>, then \<open>push\<close>.\<close>

definition stats :: "plank_row list \<Rightarrow> (string \<times> int list) list" where
  "stats planks =
     foldl (\<lambda>acc p.
              AList.update (user_id p)
                ((case map_of acc (user_id p) of None \<Rightarrow> [] | Some ds \<Rightarrow> ds) @ [duration_s p]) acc)
       [] planks"

text \<open>\<open>.map((e, i) => ({ ...e, rank: i + 1 }))\<close>: an entry is (user id, aggregate, rank).\<close>

definition add_rank :: "(string \<times> int) list \<Rightarrow> (string \<times> int \<times> nat) list" where
  "add_rank es = map (\<lambda>(i, (u, v)). (u, v, i + 1)) (enumerate 0 es)"

definition bestArr :: "plank_row list \<Rightarrow> (string \<times> int \<times> nat) list" where
  "bestArr planks =
     add_rank (array_sort (\<lambda>a b. snd b - snd a)
                 (map (\<lambda>(uid, durations). (uid, math_max durations)) (stats planks)))"

definition totalArr :: "plank_row list \<Rightarrow> (string \<times> int \<times> nat) list" where
  "totalArr planks =
     add_rank (array_sort (\<lambda>a b. snd b - snd a)
                 (map (\<lambda>(uid, durations). (uid, foldl (\<lambda>sum d. sum + d) 0 durations)) (stats planks)))"

text \<open>
  UserStats.tsx, \<open>fetchRank\<close>: \<open>totals[p.user_id] = (totals[p.user_id] || 0) + p.duration_s\<close>
  (a stored \<open>0\<close> is falsy and is replaced by \<open>0\<close>).
\<close>

definition totals :: "plank_row list \<Rightarrow> (string \<times> int) list" where
  "totals planks =
     foldl (\<lambda>acc p.
              AList.update (user_id p)
                ((case map_of acc (user_id p) of None \<Rightarrow> 0 | Some t \<Rightarrow> t) + duration_s p) acc)
       [] planks"

definition sorted_totals :: "plank_row list \<Rightarrow> (string \<times> int) list" where
  "sorted_totals planks = array_sort (\<lambda>a b. snd b - snd a) (totals planks)"

subsection \<open>Double-precision arithmetic\<close>

text \<open>
  JavaScript numbers are IEEE 754 doubles. A finite double is modelled by its exact value,
  a rational number, and \<open>fl\<close> rounds a rational to the nearest double: 53 significant
  bits, ties to the even significand. Whole numbers below \<open>2 ^ 53\<close> (ranks, counts,
  \<open>100\<close>, sums of durations) are doubles themselves. Overflow and the subnormal range are
  outside the model; the quotients and products formed here lie between \<open>2 ^ -1022\<close>
  and \<open>100\<close>.
\<close>

text \<open>\<open>ilog2 n\<close> is the position of the leading bit of \<open>n \<ge> 1\<close>.\<close>

function ilog2 :: "nat \<Rightarrow> nat" where
  "ilog2 n = (if n < 2 then 0 else Suc (ilog2 (n div 2)))"
  by pat_completeness auto
termination
  by (relation "measure id") auto

declare ilog2.simps [simp del]

text \<open>The binary exponent \<open>e\<close> of \<open>x > 0\<close>: \<open>2 ^ e \<le> x < 2 ^ (e + 1)\<close>.\<close>

definition binade :: "rat \<Rightarrow> int" where
  "binade x =
     (if 1 \<le> x then int (ilog2 (nat \<lfloor>x\<rfloor>))
      else - int (Suc (ilog2 (nat \<lceil>1 / x\<rceil> - 1))))"

text \<open>The nearest integer, the even one at a tie.\<close>

definition round_even :: "rat \<Rightarrow> int" where
  "round_even x =
     (let n = \<lfloor>x\<rfloor>; d = x - of_int n
      in if d < 1 / 2 then n else if 1 / 2 < d then n + 1 else if even n then n else n + 1)"

definition fl :: "rat \<Rightarrow> rat" where
  "fl x =
     (if x = 0 then 0
      else let e = binade \<bar>x\<bar> - 52 in of_int (round_even (x / 2 powi e)) * 2 powi e)"

subsection \<open>Rank and percentile of one user\<close>

text \<open>
  The pair (\<open>monthlyRank\<close>, \<open>monthlyPercentile\<close>) that \<open>fetchRank\<close> stores for user \<open>uid\<close>.
  The percentile \<open>(rank / totalCount) * 100\<close> is a double: the quotient is rounded, and
  so is its product with \<open>100\<close>.
\<close>

definition fetchRank :: "string \<Rightarrow> plank_row list \<Rightarrow> int option \<times> rat option" where
  "fetchRank uid planks =
     (let sorted = sorted_totals planks;
          totalCount = length sorted;
          myIndex = findIndex (\<lambda>e. fst e = uid) sorted
      in if myIndex \<ge> 0
         then (let rank = myIndex + 1
               in (Some rank, Some (fl (fl (of_int rank / of_nat totalCount) * 100))))
         else (None, None))"

text \<open>
  \<open>toFixed(0)\<close> works on the exact value of the double: the sign, then the integer
  nearest to the magnitude, the larger one at a tie.
\<close>

definition toFixed0 :: "rat \<Rightarrow> string" where
  "toFixed0 x =
     (if x < 0 then ''-'' @ toString (nat \<lfloor>- x + 1 / 2\<rfloor>) else toString (nat \<lfloor>x + 1 / 2\<rfloor>))"

text \<open>\<open>pctText\<close>; the dash of the source is an en dash, given by its UTF-8 bytes.\<close>

definition pctText :: "rat option \<Rightarrow> string" where
  "pctText monthlyPercentile =
     (case monthlyPercentile of
        Some p \<Rightarrow> ''Within top '' @ toFixed0 p @ ''%''
      | None \<Rightarrow> [CHR 0xE2, CHR 0x80, CHR 0x93])"

section \<open>Auxiliary notions for the statements\<close>

text \<open>The images that a sequence of capture attempts delivers, in order.\<close>

fun delivered :: "blob option list \<Rightarrow> blob list" where
  "delivered [] = []"
| "delivered (None # cs) = delivered cs"
| "delivered (Some b # cs) = b # delivered cs"

text \<open>
  What the backend answers to the uploads of \<open>handleComplete\<close>, in order, and the error
  messages and stored paths among such answers.
\<close>

fun upload_outcomes :: "backend \<Rightarrow> string \<Rightarrow> nat \<Rightarrow> nat \<Rightarrow> blob list \<Rightarrow> (string + string) list" where
  "upload_outcomes be uid plankId i [] = []"
| "upload_outcomes be uid plankId i (b # bs) =
     upload be (uid @ ''_'' @ toString plankId @ ''_'' @ toString i @ ''.png'') b
       # upload_outcomes be uid plankId (i + 1) bs"

fun failed :: "(string + string) list \<Rightarrow> string list" where
  "failed [] = []"
| "failed (Inl m # rs) = m # failed rs"
| "failed (Inr p # rs) = failed rs"

fun stored :: "(string + string) list \<Rightarrow> string list" where
  "stored [] = []"
| "stored (Inl m # rs) = stored rs"
| "stored (Inr p # rs) = p # stored rs"

text \<open>Concrete states and backends for the examples.\<close>

definition be_none :: backend where
  "be_none = \<lparr>getUser = None, insertPlank = (\<lambda>uid d. None), upload = (\<lambda>f b. Inl []),
              updatePhotos = (\<lambda>p ps. False)\<rparr>"

definition be_ok :: backend where
  "be_ok = \<lparr>getUser = Some ''u'', insertPlank = (\<lambda>uid d. Some 7),
            upload = (\<lambda>f b. if b = Blob 1 then Inr (''p/'' @ f) else Inl ''denied''),
            updatePhotos = (\<lambda>p ps. True)\<rparr>"

definition countdown_example :: timer_state where
  "countdown_example = init\<lparr>vowCheat := True, mode := timer, inputSec := 3\<rparr>"

text \<open>A paused stopwatch: started, run for one second, paused.\<close>

definition paused_example :: timer_state where
  "paused_example =
     handlePause (fst (tick be_none (fst (handleStart (init\<lparr>vowCheat := True\<rparr>)))
                                    (fst (handleStart (init\<lparr>vowCheat := True\<rparr>)))))"

text \<open>A paused stopwatch with three retained images, and a run with two activations.\<close>

definition three_snapshots :: timer_state where
  "three_snapshots = init\<lparr>seconds := 25, snapshots := [Blob 0, Blob 1, Blob 2]\<rparr>"

definition two_runs :: "event list" where
  "two_runs = [CheckVow True, ToggleCamera, ClickStart, Snap (Some (Blob 0)), ToBlob 0, Tick,
               Snap (Some (Blob 1)), ToBlob 0, ClickPause, ClickStart, Snap (Some (Blob 2)),
               ToBlob 0, Tick, ClickPause]"

text \<open>
  A run in which the frame drawn in the first activation is delivered only after the
  second start.
\<close>

definition carried_run :: "event list" where
  "carried_run = [CheckVow True, ToggleCamera, ClickStart, Snap (Some (Blob 1)), Tick,
                  ClickPause, ClickStart, ToBlob 0, Tick, ClickPause]"

text \<open>
  Bookkeeping for the statement about evidence, computed along a run: the images whose
  frame was drawn (by an accepted call of \<open>captureSnapshot\<close>) since the most recent start
  request that made the timer active, and the images that were in flight at that start.
\<close>

fun activation_captures :: "backend \<Rightarrow> app \<Rightarrow> blob list \<Rightarrow> event list \<Rightarrow> blob list" where
  "activation_captures be a acc [] = acc"
| "activation_captures be a acc (e # es) =
     activation_captures be (fst (step be a e))
       (case e of
          ClickStart \<Rightarrow>
            if \<not> isActive (st a) \<and> isActive (st (fst (step be a e))) then [] else acc
        | Snap (Some b) \<Rightarrow> if isActive (st a) \<and> useCamera (st a) then acc @ [b] else acc
        | _ \<Rightarrow> acc)
       es"

fun carried_over :: "backend \<Rightarrow> app \<Rightarrow> blob list \<Rightarrow> event list \<Rightarrow> blob list" where
  "carried_over be a acc [] = acc"
| "carried_over be a acc (e # es) =
     carried_over be (fst (step be a e))
       (case e of
          ClickStart \<Rightarrow>
            if \<not> isActive (st a) \<and> isActive (st (fst (step be a e)))
            then delivered (inFlight a) else acc
        | _ \<Rightarrow> acc)
       es"

text \<open>
  The invariant behind that statement: the buffer and the captures in flight hold only
  images drawn in the current activation or carried into it, and the render captured by
  the interval has an empty buffer.
\<close>

definition evidence_inv :: "app \<Rightarrow> blob list \<Rightarrow> blob list \<Rightarrow> bool" where
  "evidence_inv a drawn carried =
     (set (snapshots (st a)) \<union> set (delivered (inFlight a)) \<subseteq> set drawn \<union> set carried
      \<and> snapshots (intervalView a) = [])"

text \<open>Five fetched rows of four users, with a three-way tie of the totals.\<close>

definition planks_example :: "plank_row list" where
  "planks_example =
     [\<lparr>user_id = ''a'', duration_s = 10\<rparr>, \<lparr>user_id = ''b'', duration_s = 30\<rparr>,
      \<lparr>user_id = ''c'', duration_s = 15\<rparr>, \<lparr>user_id = ''a'', duration_s = 20\<rparr>,
      \<lparr>user_id = ''d'', duration_s = 30\<rparr>]"

text \<open>Three users with one row each, and forty users with one row each.\<close>

definition three_users :: "plank_row list" where
  "three_users =
     [\<lparr>user_id = ''a'', duration_s = 90\<rparr>, \<lparr>user_id = ''b'', duration_s = 60\<rparr>,
      \<lparr>user_id = ''c'', duration_s = 30\<rparr>]"

definition forty_users :: "plank_row list" where
  "forty_users =
     [\<lparr>user_id = ''u01'', duration_s = 400\<rparr>,
      \<lparr>user_id = ''u02'', duration_s = 390\<rparr>,
      \<lparr>user_id = ''u03'', duration_s = 380\<rparr>,
      \<lparr>user_id = ''u04'', duration_s = 370\<rparr>,
      \<lparr>user_id = ''u05'', duration_s = 360\<rparr>,
      \<lparr>user_id = ''u06'', duration_s = 350\<rparr>,
      \<lparr>user_id = ''u07'', duration_s = 340\<rparr>,
      \<lparr>user_id = ''u08'', duration_s = 330\<rparr>,
      \<lparr>user_id = ''u09'', duration_s = 320\<rparr>,
      \<lparr>user_id = ''u10'', duration_s = 310\<rparr>,
      \<lparr>user_id = ''u11'', duration_s = 300\<rparr>,
      \<lparr>user_id = ''u12'', duration_s = 290\<rparr>,
      \<lparr>user_id = ''u13'', duration_s = 280\<rparr>,
      \<lparr>user_id = ''u14'', duration_s = 270\<rparr>,
      \<lparr>user_id = ''u15'', duration_s = 260\<rparr>,
      \<lparr>user_id = ''u16'', duration_s = 250\<rparr>,
      \<lparr>user_id = ''u17'', duration_s = 240\<rparr>,
      \<lparr>user_id = ''u18'', duration_s = 230\<rparr>,
      \<lparr>user_id = ''u19'', duration_s = 220\<rparr>,
      \<lparr>user_id = ''u20'', duration_s = 210\<rparr>,
      \<lparr>user_id = ''u21'', duration_s = 200\<rparr>,
      \<lparr>user_id = ''u22'', duration_s = 190\<rparr>,
      \<lparr>user_id = ''u23'', duration_s = 180\<rparr>,
      \<lparr>user_id = ''u24'', duration_s = 170\<rparr>,
      \<lparr>user_id = ''u25'', duration_s = 160\<rparr>,
      \<lparr>user_id = ''u26'', duration_s = 150\<rparr>,
      \<lparr>user_id = ''u27'', duration_s = 140\<rparr>,
      \<lparr>user_id = ''u28'', duration_s = 130\<rparr>,
      \<lparr>user_id = ''u29'', duration_s = 120\<rparr>,
      \<lparr>user_id = ''u30'', duration_s = 110\<rparr>,
      \<lparr>user_id = ''u31'', duration_s = 100\<rparr>,
      \<lparr>user_id = ''u32'', duration_s = 90\<rparr>,
      \<lparr>user_id = ''u33'', duration_s = 80\<rparr>,
      \<lparr>user_id = ''u34'', duration_s = 70\<rparr>,
      \<lparr>user_id = ''u35'', duration_s = 60\<rparr>,
      \<lparr>user_id = ''u36'', duration_s = 50\<rparr>,
      \<lparr>user_id = ''u37'', duration_s = 40\<rparr>,
      \<lparr>user_id = ''u38'', duration_s = 30\<rparr>,
      \<lparr>user_id = ''u39'', duration_s = 20\<rparr>,
      \<lparr>user_id = ''u40'', duration_s = 10\<rparr>]"

section \<open>Properties of the time formatters\<close>

lemma toString_digit: "n < 10 \<Longrightarrow> toString n = [digit_char n]"
  by (simp add: toString.simps)

lemma toString_two: "10 \<le> n \<Longrightarrow> n < 100 \<Longrightarrow> toString n = [digit_char (n div 10), digit_char (n mod 10)]"
proof -
  assume a: "10 \<le> n" "n < 100"
  then have "n div 10 < 10" by simp
  with a show ?thesis
    by (simp add: toString.simps[of n] toString_digit)
qed

lemma length_toString_ge2: "10 \<le> n \<Longrightarrow> 2 \<le> length (toString n)"
  by (subst toString.simps) (simp add: Suc_le_eq toString.simps[of "n div 10"])

lemma digit_char_0: "digit_char 0 = CHR ''0''"
  by (simp add: digit_char_def)

lemma seconds_field:
  assumes "s < 60"
  shows "(if s < 10 then ''0'' @ toString s else toString s) = [digit_char (s div 10), digit_char (s mod 10)]"
proof (cases "s < 10")
  case True
  then show ?thesis by (simp add: toString_digit digit_char_0)
next
  case False
  with assms show ?thesis by (simp add: toString_two)
qed

lemma padStart_seconds:
  assumes "s < 60"
  shows "padStart 2 (CHR ''0'') (toString s) = [digit_char (s div 10), digit_char (s mod 10)]"
proof (cases "s < 10")
  case True
  then show ?thesis by (simp add: padStart_def toString_digit digit_char_0)
next
  case False
  with assms show ?thesis by (simp add: padStart_def toString_two)
qed

lemma padStart_minutes:
  "padStart 2 (CHR ''0'') (toString m) = (if m < 10 then CHR ''0'' # toString m else toString m)"
proof (cases "m < 10")
  case True
  then show ?thesis by (simp add: padStart_def toString_digit)
next
  case False
  then have "2 \<le> length (toString m)" by (simp add: length_toString_ge2)
  with False show ?thesis by (simp add: padStart_def)
qed

lemma formatTime_UserStats_eq:
  "formatTime_UserStats t =
     toString (t div 60) @ [CHR '':'', digit_char (t mod 60 div 10), digit_char (t mod 60 mod 10)]"
  using seconds_field[of "t mod 60"] by (simp add: formatTime_UserStats_def Let_def)

lemma formatTime_PlankTimer_eq:
  "formatTime_PlankTimer t =
     (if t < 600 then CHR ''0'' # formatTime_UserStats t else formatTime_UserStats t)"
proof -
  have "(t div 60 < 10) = (t < 600)" by auto
  then show ?thesis
    using padStart_seconds[of "t mod 60"]
    by (simp add: formatTime_PlankTimer_def formatTime_UserStats_eq padStart_minutes)
qed

text \<open>
  C2 (as amended). The formatters of UserStats, Leaderboard and PlankDetailDialog agree on
  every duration and return the minutes unpadded, a colon and the seconds as exactly two
  digits; they map 0, 65, 599 and 3600 to "0:00", "1:05", "9:59" and "60:00". The
  formatter of PlankTimer pads the minutes to two digits as well: below 600 seconds its
  result is the others' result with a leading "0", and from 600 seconds on it agrees
  with them.
\<close>

theorem formatTime_views:
  "formatTime_UserStats t =
     toString (t div 60) @ [CHR '':'', digit_char (t mod 60 div 10), digit_char (t mod 60 mod 10)]
   \<and> formatTime_Leaderboard t = formatTime_UserStats t
   \<and> formatTime_PlankDetailDialog t = formatTime_UserStats t
   \<and> formatTime_PlankTimer t =
       (if t < 600 then CHR ''0'' # formatTime_UserStats t else formatTime_UserStats t)
   \<and> formatTime_UserStats 0 = ''0:00'' \<and> formatTime_UserStats 65 = ''1:05''
   \<and> formatTime_UserStats 599 = ''9:59'' \<and> formatTime_UserStats 3600 = ''60:00''"
proof -
  have "formatTime_Leaderboard t = formatTime_UserStats t"
    by (simp add: formatTime_Leaderboard_def formatTime_UserStats_def)
  moreover have "formatTime_PlankDetailDialog t = formatTime_UserStats t"
    by (simp add: formatTime_PlankDetailDialog_def formatTime_UserStats_def)
  moreover have "formatTime_UserStats 0 = ''0:00''" "formatTime_UserStats 65 = ''1:05''"
    "formatTime_UserStats 599 = ''9:59''" "formatTime_UserStats 3600 = ''60:00''"
    by (simp_all add: formatTime_UserStats_def toString.simps digit_char_def Let_def)
  ultimately show ?thesis
    using formatTime_UserStats_eq[of t] formatTime_PlankTimer_eq[of t] by simp
qed

theorem formatTime_views_witness:
  "formatTime_UserStats 754 = ''12:34'' \<and> formatTime_Leaderboard 754 = ''12:34''
   \<and> formatTime_PlankDetailDialog 754 = ''12:34'' \<and> formatTime_PlankTimer 754 = ''12:34''
   \<and> formatTime_PlankTimer 65 = ''01:05''"
proof -
  have "formatTime_UserStats 754 = ''12:34''" "formatTime_UserStats 65 = ''1:05''"
    by (simp_all add: formatTime_UserStats_def toString.simps digit_char_def Let_def)
  then show ?thesis
    using formatTime_views[of 754] formatTime_views[of 65] by simp
qed

theorem formatTime_PlankTimer_counterexample:
  "formatTime_PlankTimer 0 = ''00:00'' \<and> formatTime_PlankTimer 0 \<noteq> ''0:00''
   \<and> formatTime_PlankTimer 0 \<noteq> formatTime_UserStats 0"
  by (simp add: formatTime_PlankTimer_def formatTime_UserStats_def padStart_def
      toString.simps digit_char_def Let_def)

section \<open>Properties of the session timer\<close>

subsection \<open>The snapshot buffer\<close>

lemma take3_take3: "take 3 (take 3 xs @ ys) = take 3 (xs @ ys)"
  by (simp add: take_Suc_conv_app_nth min_def) 


lemma captureSnapshot_fold:
  "length (snapshots s) \<le> 3 \<Longrightarrow>
   snapshots (fold captureSnapshot cs s) = take 3 (snapshots s @ delivered cs)"
proof (induction cs arbitrary: s)
  case Nil
  then show ?case by simp
next
  case (Cons c cs)
  show ?case
  proof (cases c)
    case None
    with Cons show ?thesis by (simp add: captureSnapshot_def)
  next
    case (Some b)
    have "snapshots (fold captureSnapshot cs (captureSnapshot c s))
            = take 3 (snapshots (captureSnapshot c s) @ delivered cs)"
      by (rule Cons.IH) (simp add: captureSnapshot_def Some)
    also have "\<dots> = take 3 (take 3 (snapshots s @ [b]) @ delivered cs)"
      by (simp add: captureSnapshot_def Some)
    also have "\<dots> = take 3 ((snapshots s @ [b]) @ delivered cs)"
      by (rule take3_take3)
    finally show ?thesis by (simp add: Some)
  qed
qed

text \<open>
  C1 (as amended). For every sequence of capture attempts, starting from a buffer of at
  most 3 images (it is empty after every start), the retained list is the first 3 of the
  buffer followed by the delivered images, in order: at most 3 entries, the earliest
  captures kept and every later one dropped.
\<close>

theorem snapshots_keep_first:
  "length (snapshots s) \<le> 3 \<Longrightarrow>
   snapshots (fold captureSnapshot cs s) = take 3 (snapshots s @ delivered cs)
   \<and> length (snapshots (fold captureSnapshot cs s)) \<le> 3"
  using captureSnapshot_fold[of s cs] by simp

theorem snapshots_keep_first_witness:
  "length (snapshots init) \<le> 3 \<and>
   snapshots (fold captureSnapshot
       [Some (Blob 0), None, Some (Blob 1), Some (Blob 2), Some (Blob 3)] init)
     = [Blob 0, Blob 1, Blob 2]"
  using snapshots_keep_first[of init
      "[Some (Blob 0), None, Some (Blob 1), Some (Blob 2), Some (Blob 3)]"]
  by (simp add: init_def)

theorem snapshots_last3_counterexample:
  "snapshots (fold captureSnapshot [Some (Blob 0), Some (Blob 1), Some (Blob 2), Some (Blob 3)] init)
     = [Blob 0, Blob 1, Blob 2]
   \<and> snapshots (fold captureSnapshot [Some (Blob 0), Some (Blob 1), Some (Blob 2), Some (Blob 3)] init)
     \<noteq> [Blob 1, Blob 2, Blob 3]"
  by (simp add: captureSnapshot_def init_def)

subsection \<open>Changing the mode\<close>

text \<open>
  C3 (as amended). A mode-change request leaves the state unchanged while the timer is
  active or completed; whenever it is neither (idle or paused) the request sets the mode.
\<close>

theorem clickMode_guard:
  "(isActive s \<or> isCompleted s \<longrightarrow> clickMode m s = s)
   \<and> (\<not> isActive s \<and> \<not> isCompleted s \<longrightarrow> clickMode m s = s\<lparr>mode := m\<rparr>)"
  by (simp add: clickMode_def)

theorem clickMode_paused_counterexample:
  "\<not> isActive paused_example \<and> \<not> isCompleted paused_example \<and> seconds paused_example = 1
   \<and> mode paused_example = stopwatch \<and> mode (clickMode timer paused_example) = timer"
  by (simp add: paused_example_def clickMode_def handlePause_def tick_def handleStart_def
      init_def Let_def)

theorem clickMode_guard_witness:
  "isActive (fst (handleStart (init\<lparr>vowCheat := True\<rparr>)))
   \<and> clickMode timer (fst (handleStart (init\<lparr>vowCheat := True\<rparr>))) = fst (handleStart (init\<lparr>vowCheat := True\<rparr>))
   \<and> \<not> isActive init \<and> \<not> isCompleted init \<and> clickMode timer init = init\<lparr>mode := timer\<rparr>"
  using clickMode_guard[of "fst (handleStart (init\<lparr>vowCheat := True\<rparr>))" timer] clickMode_guard[of init timer]
  by (simp add: handleStart_def init_def Let_def)

subsection \<open>Starting\<close>

text \<open>
  C7. A start request without the acknowledgment flag changes nothing and produces the
  warning, so the timer does not become active; in timer mode a target
  \<open>inputMin * 60 + inputSec \<le> 0\<close> is rejected the same way; every other start request
  makes the timer active and produces no warning.
\<close>

theorem handleStart_gate:
  "(\<not> vowCheat s \<longrightarrow>
      handleStart s = (s, [ToastError ''You must swear you will not cheat before you start!'']))
   \<and> (vowCheat s \<and> mode s = timer \<and> inputMin s * 60 + inputSec s \<le> 0 \<longrightarrow>
      handleStart s = (s, [ToastError ''Please set a positive timer.'']))
   \<and> (vowCheat s \<and> \<not> (mode s = timer \<and> inputMin s * 60 + inputSec s \<le> 0) \<longrightarrow>
      isActive (fst (handleStart s)) \<and> snd (handleStart s) = [])"
  by (simp add: handleStart_def Let_def)


theorem handleStart_gate_witness:
  "\<not> vowCheat init \<and> isActive (fst (handleStart init)) = isActive init
   \<and> snd (handleStart init) = [ToastError ''You must swear you will not cheat before you start!'']
   \<and> snd (handleStart (init\<lparr>vowCheat := True, mode := timer\<rparr>))
        = [ToastError ''Please set a positive timer.'']
   \<and> \<not> isActive (fst (handleStart (init\<lparr>vowCheat := True, mode := timer\<rparr>)))
   \<and> isActive (fst (handleStart countdown_example))
   \<and> isActive (fst (handleStart (init\<lparr>vowCheat := True\<rparr>)))"
  using handleStart_gate[of init] handleStart_gate[of "init\<lparr>vowCheat := True, mode := timer\<rparr>"]
    handleStart_gate[of countdown_example] handleStart_gate[of "init\<lparr>vowCheat := True\<rparr>"]
  by (simp add: init_def countdown_example_def)

subsection \<open>Counting down\<close>

lemma ticks_countdown:
  "mode v = timer \<Longrightarrow> isActive s \<Longrightarrow> seconds s = int (Suc n) \<Longrightarrow>
   ticks be v (Suc n) s = handleComplete be v (s\<lparr>seconds := 0\<rparr>)"
proof (induction n arbitrary: s)
  case 0
  then show ?case by (simp add: tick_def split: prod.splits)
next
  case (Suc n)
  let ?s1 = "s\<lparr>seconds := seconds s - 1\<rparr>"
  from Suc.prems have t: "tick be v s = (?s1, [])" by (simp add: tick_def)
  have "ticks be v (Suc n) ?s1 = handleComplete be v (?s1\<lparr>seconds := 0\<rparr>)"
    by (rule Suc.IH) (use Suc.prems in simp_all)
  then have "ticks be v (Suc (Suc n)) s = handleComplete be v (?s1\<lparr>seconds := 0\<rparr>)"
    using Suc.prems(2) t by (simp del: ticks.simps(2) add: ticks.simps(2)[of be v "Suc n" s] split: prod.splits)
  then show ?case by simp
qed

lemma ticks_counting:
  "mode v = timer \<Longrightarrow> isActive s \<Longrightarrow> int k < seconds s \<Longrightarrow>
   ticks be v k s = (s\<lparr>seconds := seconds s - int k\<rparr>, [])"
proof (induction k arbitrary: s)
  case 0
  then show ?case by simp
next
  case (Suc k)
  let ?s1 = "s\<lparr>seconds := seconds s - 1\<rparr>"
  from Suc.prems have t: "tick be v s = (?s1, [])" by (simp add: tick_def)
  have "ticks be v k ?s1 = (?s1\<lparr>seconds := seconds ?s1 - int k\<rparr>, [])"
    by (rule Suc.IH) (use Suc.prems in simp_all)
  with Suc.prems(2) t show ?case by simp
qed

subsection \<open>What completion does\<close>

lemma inserted_append: "inserted (xs @ ys) = inserted xs @ inserted ys"
  by (induction xs rule: inserted.induct) simp_all

lemma uploaded_append: "uploaded (xs @ ys) = uploaded xs @ uploaded ys"
  by (induction xs rule: uploaded.induct) simp_all

lemma updates_append: "updates (xs @ ys) = updates xs @ updates ys"
  by (induction xs rule: updates.induct) simp_all

lemma error_toasts_append: "error_toasts (xs @ ys) = error_toasts xs @ error_toasts ys"
  by (induction xs rule: error_toasts.induct) simp_all

lemma success_toasts_append: "success_toasts (xs @ ys) = success_toasts xs @ success_toasts ys"
  by (induction xs rule: success_toasts.induct) simp_all

lemma uploadSnapshots_paths:
  "fst (uploadSnapshots be uid pid i bs) = stored (upload_outcomes be uid pid i bs)"
  by (induction bs arbitrary: i) (simp_all add: Let_def case_prod_beta split: sum.splits)

lemma uploadSnapshots_uploaded:
  "uploaded (snd (uploadSnapshots be uid pid i bs)) = bs"
  by (induction bs arbitrary: i) (simp_all add: Let_def case_prod_beta split: sum.splits)

lemma uploadSnapshots_error_toasts:
  "error_toasts (snd (uploadSnapshots be uid pid i bs))
     = map (\<lambda>m. ''Could not upload photo. '' @ m) (failed (upload_outcomes be uid pid i bs))"
  by (induction bs arbitrary: i) (simp_all add: Let_def case_prod_beta split: sum.splits)

lemma uploadSnapshots_inserted: "inserted (snd (uploadSnapshots be uid pid i bs)) = []"
  by (induction bs arbitrary: i) (simp_all add: Let_def case_prod_beta split: sum.splits)

lemma uploadSnapshots_updates: "updates (snd (uploadSnapshots be uid pid i bs)) = []"
  by (induction bs arbitrary: i) (simp_all add: Let_def case_prod_beta split: sum.splits)

lemma uploadSnapshots_success_toasts: "success_toasts (snd (uploadSnapshots be uid pid i bs)) = []"
  by (induction bs arbitrary: i) (simp_all add: Let_def case_prod_beta split: sum.splits)

lemma length_outcomes: "length (upload_outcomes be uid pid i bs) = length bs"
  by (induction bs arbitrary: i) simp_all

lemma failed_stored_length: "length (failed rs) + length (stored rs) = length rs"
  by (induction rs rule: failed.induct) simp_all

lemma handleComplete_state:
  "fst (handleComplete be v s) =
     s\<lparr>isActive := False, isCompleted := True,
       seconds := (if mode v = timer then initialSeconds v else seconds v)\<rparr>"
  by (simp add: handleComplete_def Let_def split: option.splits prod.splits)

lemma handleComplete_saved:
  assumes "getUser be = Some uid"
    and "insertPlank be uid (if mode v = timer then initialSeconds v else seconds v) = Some pid"
  shows "snd (handleComplete be v s) =
     [InsertPlank uid (if mode v = timer then initialSeconds v else seconds v)]
     @ snd (uploadSnapshots be uid pid 0 (snapshots v))
     @ (if fst (uploadSnapshots be uid pid 0 (snapshots v)) \<noteq> []
        then UpdatePhotos pid (fst (uploadSnapshots be uid pid 0 (snapshots v))) #
             (if updatePhotos be pid (fst (uploadSnapshots be uid pid 0 (snapshots v))) then []
              else [ConsoleError ''Failed to attach photos to plank:''])
        else [])
     @ [ToastSuccess ''Plank saved!'']"
  using assms by (simp add: handleComplete_def Let_def case_prod_beta)

lemma handleComplete_inserted:
  "inserted (snd (handleComplete be v s)) =
     (case getUser be of None \<Rightarrow> []
      | Some uid \<Rightarrow> [(uid, if mode v = timer then initialSeconds v else seconds v)])"
proof (cases "getUser be")
  case None
  then show ?thesis by (simp add: handleComplete_def Let_def)
next
  case (Some uid)
  show ?thesis
  proof (cases "insertPlank be uid (if mode v = timer then initialSeconds v else seconds v)")
    case None
    with Some show ?thesis by (simp add: handleComplete_def Let_def)
  next
    case (Some pid)
    from handleComplete_saved[OF \<open>getUser be = Some uid\<close> Some]
    show ?thesis
      by (simp add: \<open>getUser be = Some uid\<close> inserted_append uploadSnapshots_inserted)
  qed
qed

lemma handleComplete_uploaded:
  "set (uploaded (snd (handleComplete be v s))) \<subseteq> set (snapshots v)"
proof (cases "getUser be")
  case None
  then show ?thesis by (simp add: handleComplete_def Let_def)
next
  case (Some uid)
  show ?thesis
  proof (cases "insertPlank be uid (if mode v = timer then initialSeconds v else seconds v)")
    case None
    with Some show ?thesis by (simp add: handleComplete_def Let_def)
  next
    case (Some pid)
    from handleComplete_saved[OF \<open>getUser be = Some uid\<close> Some]
    show ?thesis by (simp add: uploaded_append uploadSnapshots_uploaded)
  qed
qed

subsection \<open>The duration of a completed countdown\<close>

text \<open>
  C8. After a successful start in timer mode with target \<open>inputMin * 60 + inputSec\<close>, the
  countdown stays active while fewer seconds than the target have passed, and the tick
  that completes it leaves the timer completed with the displayed seconds equal to the
  target; the only record it asks the backend to insert (when a user is logged in) has
  that target as its duration.
\<close>

theorem countdown_reports_target:
  assumes "vowCheat s" and "mode s = timer" and "0 < inputMin s * 60 + inputSec s"
  shows "fst (handleStart s)
           = s\<lparr>initialSeconds := inputMin s * 60 + inputSec s,
                seconds := inputMin s * 60 + inputSec s,
                snapshots := [], isActive := True, isCompleted := False\<rparr>
    \<and> (\<forall>k. int k < inputMin s * 60 + inputSec s \<longrightarrow>
          ticks be (fst (handleStart s)) k (fst (handleStart s))
            = ((fst (handleStart s))\<lparr>seconds := inputMin s * 60 + inputSec s - int k\<rparr>, []))
    \<and> seconds (fst (ticks be (fst (handleStart s)) (nat (inputMin s * 60 + inputSec s)) (fst (handleStart s))))
          = inputMin s * 60 + inputSec s
    \<and> isCompleted (fst (ticks be (fst (handleStart s)) (nat (inputMin s * 60 + inputSec s)) (fst (handleStart s))))
    \<and> \<not> isActive (fst (ticks be (fst (handleStart s)) (nat (inputMin s * 60 + inputSec s)) (fst (handleStart s))))
    \<and> inserted (snd (ticks be (fst (handleStart s)) (nat (inputMin s * 60 + inputSec s)) (fst (handleStart s))))
          = (case getUser be of None \<Rightarrow> [] | Some uid \<Rightarrow> [(uid, inputMin s * 60 + inputSec s)])"
proof -
  let ?total = "inputMin s * 60 + inputSec s"
  let ?s1 = "fst (handleStart s)"
  have s1: "?s1 = s\<lparr>initialSeconds := ?total, seconds := ?total,
                     snapshots := [], isActive := True, isCompleted := False\<rparr>"
    using assms by (simp add: handleStart_def Let_def)
  have m: "mode ?s1 = timer" and a: "isActive ?s1" and sec: "seconds ?s1 = ?total"
    and ini: "initialSeconds ?s1 = ?total"
    using assms by (simp_all add: s1)
  have counting: "ticks be ?s1 k ?s1 = (?s1\<lparr>seconds := ?total - int k\<rparr>, [])" if "int k < ?total" for k
    using ticks_counting[OF m a, of k be] that sec by simp
  obtain n where n: "nat ?total = Suc n"
    using assms(3) by (cases "nat ?total") simp_all
  then have "seconds ?s1 = int (Suc n)" using sec assms(3) by linarith
  then have fin: "ticks be ?s1 (nat ?total) ?s1 = handleComplete be ?s1 (?s1\<lparr>seconds := 0\<rparr>)"
    using ticks_countdown[OF m a, of n be] n by simp
  show ?thesis
    apply (intro conjI allI impI)
    subgoal by (rule s1)
    subgoal by (rule counting)
    subgoal by (simp only: fin handleComplete_state) (simp add: m ini)
    subgoal by (simp only: fin handleComplete_state) simp
    subgoal by (simp only: fin handleComplete_state) simp
    subgoal by (simp only: fin handleComplete_inserted) (simp add: m ini split: option.splits)
    done
qed

theorem countdown_reports_target_witness:
  "vowCheat countdown_example \<and> mode countdown_example = timer
   \<and> 0 < inputMin countdown_example * 60 + inputSec countdown_example
   \<and> seconds (fst (ticks be_ok (fst (handleStart countdown_example)) 3
                   (fst (handleStart countdown_example)))) = 3
   \<and> inserted (snd (ticks be_ok (fst (handleStart countdown_example)) 3
                   (fst (handleStart countdown_example)))) = [(''u'', 3)]"
proof -
  have h: "vowCheat countdown_example" "mode countdown_example = timer"
    "0 < inputMin countdown_example * 60 + inputSec countdown_example"
    by (simp_all add: countdown_example_def init_def)
  have t: "inputMin countdown_example * 60 + inputSec countdown_example = 3"
    by (simp add: countdown_example_def init_def)
  have u: "getUser be_ok = Some ''u''" by (simp add: be_ok_def)
  have n: "nat 3 = (3::nat)" by simp
  note r = countdown_reports_target[OF h, of be_ok, unfolded t u n option.case]
  from r h show ?thesis by blast
qed

subsection \<open>Uploads\<close>

text \<open>
  C9. When a user is logged in and the insert succeeds, \<open>handleComplete\<close> asks for exactly
  one record, attempts the upload of every retained image in order whatever the earlier
  uploads answered, produces one failure notification per failed upload, sends one update
  with the stored paths exactly when at least one upload succeeded, and ends with the
  success notification. In particular, with 3 images of which 2 fail there are 2 failure
  notifications and one update carrying exactly 1 path.
\<close>

theorem handleComplete_uploads:
  assumes "getUser be = Some uid"
    and "insertPlank be uid (if mode v = timer then initialSeconds v else seconds v) = Some pid"
  shows "inserted (snd (handleComplete be v s))
           = [(uid, if mode v = timer then initialSeconds v else seconds v)]
    \<and> uploaded (snd (handleComplete be v s)) = snapshots v
    \<and> error_toasts (snd (handleComplete be v s))
         = map (\<lambda>m. ''Could not upload photo. '' @ m)
             (failed (upload_outcomes be uid pid 0 (snapshots v)))
    \<and> updates (snd (handleComplete be v s))
         = (if stored (upload_outcomes be uid pid 0 (snapshots v)) = [] then []
            else [(pid, stored (upload_outcomes be uid pid 0 (snapshots v)))])
    \<and> success_toasts (snd (handleComplete be v s)) = [''Plank saved!'']
    \<and> isCompleted (fst (handleComplete be v s))
    \<and> length (failed (upload_outcomes be uid pid 0 (snapshots v)))
        + length (stored (upload_outcomes be uid pid 0 (snapshots v))) = length (snapshots v)
    \<and> (length (snapshots v) = 3 \<and> length (failed (upload_outcomes be uid pid 0 (snapshots v))) = 2
        \<longrightarrow> length (error_toasts (snd (handleComplete be v s))) = 2
            \<and> (\<exists>path. updates (snd (handleComplete be v s)) = [(pid, [path])]))"
proof -
  let ?rs = "upload_outcomes be uid pid 0 (snapshots v)"
  let ?effs = "snd (handleComplete be v s)"
  note saved = handleComplete_saved[OF assms, of s]
  have ins: "inserted ?effs = [(uid, if mode v = timer then initialSeconds v else seconds v)]"
    using handleComplete_inserted[of be v s] assms(1) by simp
  have upl: "uploaded ?effs = snapshots v"
    by (simp add: saved uploaded_append uploadSnapshots_uploaded)
  have err: "error_toasts ?effs = map (\<lambda>m. ''Could not upload photo. '' @ m) (failed ?rs)"
    by (simp add: saved error_toasts_append uploadSnapshots_error_toasts)
  have upd: "updates ?effs = (if stored ?rs = [] then [] else [(pid, stored ?rs)])"
    by (simp add: saved updates_append uploadSnapshots_updates uploadSnapshots_paths)
  have suc: "success_toasts ?effs = [''Plank saved!'']"
    by (simp add: saved success_toasts_append uploadSnapshots_success_toasts)
  have com: "isCompleted (fst (handleComplete be v s))"
    by (simp add: handleComplete_state)
  have len: "length (failed ?rs) + length (stored ?rs) = length (snapshots v)"
    by (simp add: failed_stored_length length_outcomes)
  have two: "length (error_toasts ?effs) = 2 \<and> (\<exists>path. updates ?effs = [(pid, [path])])"
    if h: "length (snapshots v) = 3 \<and> length (failed ?rs) = 2"
  proof -
    from h len have "length (stored ?rs) = 1" by simp
    then obtain path where p: "stored ?rs = [path]"
      by (cases "stored ?rs") simp_all
    from h have "length (error_toasts ?effs) = 2" by (simp add: err)
    moreover have "updates ?effs = [(pid, [path])]" by (simp add: upd p)
    ultimately show ?thesis by blast
  qed
  from ins upl err upd suc com len two show ?thesis by blast
qed

theorem handleComplete_uploads_witness:
  "getUser be_ok = Some ''u''
   \<and> insertPlank be_ok ''u'' (if mode three_snapshots = timer then initialSeconds three_snapshots
                                else seconds three_snapshots) = Some 7
   \<and> length (snapshots three_snapshots) = 3
   \<and> length (failed (upload_outcomes be_ok ''u'' 7 0 (snapshots three_snapshots))) = 2
   \<and> inserted (snd (handleComplete be_ok three_snapshots three_snapshots)) = [(''u'', 25)]
   \<and> updates (snd (handleComplete be_ok three_snapshots three_snapshots)) = [(7, [''p/u_7_1.png''])]
   \<and> error_toasts (snd (handleComplete be_ok three_snapshots three_snapshots))
        = [''Could not upload photo. denied'', ''Could not upload photo. denied'']
   \<and> success_toasts (snd (handleComplete be_ok three_snapshots three_snapshots)) = [''Plank saved!'']"
proof -
  have u: "getUser be_ok = Some ''u''" by (simp add: be_ok_def)
  have i: "insertPlank be_ok ''u'' (if mode three_snapshots = timer then initialSeconds three_snapshots
                                else seconds three_snapshots) = Some 7"
    by (simp add: be_ok_def)
  have rs: "upload_outcomes be_ok ''u'' 7 0 (snapshots three_snapshots)
              = [Inl ''denied'', Inr ''p/u_7_1.png'', Inl ''denied'']"
    by (simp add: three_snapshots_def init_def be_ok_def toString.simps digit_char_def)
  have d: "(if mode three_snapshots = timer then initialSeconds three_snapshots
            else seconds three_snapshots) = 25"
    by (simp add: three_snapshots_def init_def)
  have l: "length (snapshots three_snapshots) = 3" by (simp add: three_snapshots_def)
  from handleComplete_uploads[OF u i, of three_snapshots] u i l show ?thesis
    unfolding rs d by simp
qed

subsection \<open>Evidence along a run\<close>

lemma tick_snapshots: "snapshots (fst (tick be v s)) = snapshots s"
  by (simp add: tick_def handleComplete_state)

lemma tick_uploaded_empty: "snapshots v = [] \<Longrightarrow> uploaded (snd (tick be v s)) = []"
  using handleComplete_uploaded[of be v "s\<lparr>seconds := 0\<rparr>"] by (simp add: tick_def)

lemma handleStart_cases:
  "(fst (handleStart s) = s \<and> snd (handleStart s) \<noteq> [])
   \<or> (snd (handleStart s) = [] \<and> isActive (fst (handleStart s))
       \<and> snapshots (fst (handleStart s)) = [])"
  by (simp add: handleStart_def Let_def)

lemma delivered_append: "delivered (cs @ ds) = delivered cs @ delivered ds"
  by (induction cs rule: delivered.induct) simp_all

lemma delivered_nth: "n < length cs \<Longrightarrow> cs ! n = Some b \<Longrightarrow> b \<in> set (delivered cs)"
proof (induction cs arbitrary: n rule: delivered.induct)
  case 1
  then show ?case by simp
next
  case (2 cs)
  then show ?case by (cases n) simp_all
next
  case (3 c cs)
  then show ?case by (cases n) auto
qed

lemma delivered_remove:
  "set (delivered (take n cs @ drop (Suc n) cs)) \<subseteq> set (delivered cs)"
proof -
  have "set (delivered (drop (Suc n) cs)) \<subseteq> set (delivered (drop n cs))"
  proof (cases "n < length cs")
    case True
    then have "drop n cs = cs ! n # drop (Suc n) cs" by (simp add: Cons_nth_drop_Suc)
    then show ?thesis by (cases "cs ! n") auto
  next
    case False
    then show ?thesis by simp
  qed
  moreover have "delivered cs = delivered (take n cs) @ delivered (drop n cs)"
    using delivered_append[of "take n cs" "drop n cs"] by simp
  ultimately show ?thesis by (auto simp add: delivered_append)
qed

lemma captureSnapshot_subset:
  "set (snapshots (captureSnapshot c s)) \<subseteq> set (snapshots s) \<union> set (delivered [c])"
proof (cases c)
  case None
  then show ?thesis by (simp add: captureSnapshot_def)
next
  case (Some b)
  have "set (take 3 (snapshots s @ [b])) \<subseteq> set (snapshots s @ [b])"
    by (rule set_take_subset)
  then show ?thesis by (auto simp add: captureSnapshot_def Some)
qed

lemma step_evidence_inv:
  assumes "evidence_inv a drawn carried"
  shows "evidence_inv (fst (step be a e))
           (case e of
              ClickStart \<Rightarrow>
                if \<not> isActive (st a) \<and> isActive (st (fst (step be a e))) then [] else drawn
            | Snap (Some b) \<Rightarrow> if isActive (st a) \<and> useCamera (st a) then drawn @ [b] else drawn
            | _ \<Rightarrow> drawn)
           (case e of
              ClickStart \<Rightarrow>
                if \<not> isActive (st a) \<and> isActive (st (fst (step be a e)))
                then delivered (inFlight a) else carried
            | _ \<Rightarrow> carried)"
proof (cases e)
  case ClickStart
  show ?thesis
    using assms handleStart_cases[of "st a"]
    by (auto simp add: ClickStart step_def Let_def evidence_inv_def case_prod_beta)
next
  case (Snap c)
  with assms show ?thesis
    by (cases c) (auto simp add: step_def Let_def evidence_inv_def delivered_append)
next
  case (ToBlob n)
  show ?thesis
  proof (cases "n < length (inFlight a)")
    case False
    with assms show ?thesis by (simp add: ToBlob step_def Let_def)
  next
    case True
    have "set (delivered [inFlight a ! n]) \<subseteq> set (delivered (inFlight a))"
      using delivered_nth[OF True] by (cases "inFlight a ! n") auto
    with captureSnapshot_subset[of "inFlight a ! n" "st a"]
    have "set (snapshots (captureSnapshot (inFlight a ! n) (st a)))
            \<subseteq> set (snapshots (st a)) \<union> set (delivered (inFlight a))"
      by blast
    with assms delivered_remove[of n "inFlight a"] True show ?thesis
      by (auto simp add: ToBlob step_def Let_def evidence_inv_def)
  qed
next
  case Tick
  with assms show ?thesis
    by (simp add: step_def Let_def evidence_inv_def case_prod_beta tick_snapshots)
next
  case ClickSave
  with assms show ?thesis
    by (simp add: step_def Let_def evidence_inv_def case_prod_beta handleComplete_state)
qed (use assms in \<open>simp_all add: step_def Let_def evidence_inv_def handlePause_def handleReset_def clickMode_def\<close>)

lemma run_evidence_inv:
  "evidence_inv a drawn carried \<Longrightarrow>
   evidence_inv (fst (run be a evs))
     (activation_captures be a drawn evs) (carried_over be a carried evs)"
proof (induction evs arbitrary: a drawn carried)
  case Nil
  then show ?case by simp
next
  case (Cons e evs)
  from step_evidence_inv[OF Cons.prems, of be e] Cons.IH
  show ?case by (simp add: case_prod_beta)
qed

lemma step_uploaded:
  assumes "evidence_inv a drawn carried"
  shows "set (uploaded (snd (step be a e))) \<subseteq> set drawn \<union> set carried"
proof (cases e)
  case ClickStart
  have "uploaded (snd (handleStart (st a))) = []"
    by (simp add: handleStart_def Let_def)
  then show ?thesis by (simp add: ClickStart step_def Let_def case_prod_beta)
next
  case Tick
  with assms show ?thesis
    by (simp add: step_def Let_def evidence_inv_def case_prod_beta tick_uploaded_empty)
next
  case ClickSave
  with assms handleComplete_uploaded[of be "st a" "st a"] show ?thesis
    by (auto simp add: step_def Let_def evidence_inv_def case_prod_beta)
qed (simp_all add: step_def Let_def)

text \<open>
  C10 (as amended). A start request that is accepted (it produces no warning) leaves the
  snapshot buffer empty and the timer active, and a rejected one changes nothing. Along
  every run of the component from its initial state, the buffer, and hence every image
  that the next event uploads as evidence, consists of images whose frame was drawn since
  the most recent start that made the timer active, or that were in flight at that start
  (drawn earlier, delivered by \<open>toBlob\<close> after it).
\<close>

theorem evidence_from_last_activation:
  "(snd (handleStart s) = [] \<longrightarrow>
      snapshots (fst (handleStart s)) = [] \<and> isActive (fst (handleStart s)))
   \<and> (snd (handleStart s) \<noteq> [] \<longrightarrow> fst (handleStart s) = s)
   \<and> set (snapshots (st (fst (run be init_app evs))))
        \<subseteq> set (activation_captures be init_app [] evs) \<union> set (carried_over be init_app [] evs)
   \<and> set (uploaded (snd (step be (fst (run be init_app evs)) e)))
        \<subseteq> set (activation_captures be init_app [] evs) \<union> set (carried_over be init_app [] evs)"
proof -
  have i: "evidence_inv init_app [] []"
    by (simp add: evidence_inv_def init_app_def init_def)
  note r = run_evidence_inv[OF i, of be evs]
  from r have "set (snapshots (st (fst (run be init_app evs))))
        \<subseteq> set (activation_captures be init_app [] evs) \<union> set (carried_over be init_app [] evs)"
    by (simp add: evidence_inv_def)
  moreover note step_uploaded[OF r, of be e]
  moreover have "snd (handleStart s) = [] \<longrightarrow>
      snapshots (fst (handleStart s)) = [] \<and> isActive (fst (handleStart s))"
    using handleStart_cases[of s] by auto
  moreover have "snd (handleStart s) \<noteq> [] \<longrightarrow> fst (handleStart s) = s"
    using handleStart_cases[of s] by auto
  ultimately show ?thesis by blast
qed

theorem evidence_from_last_activation_witness:
  "snd (handleStart (three_snapshots\<lparr>vowCheat := True\<rparr>)) = []
   \<and> snapshots (fst (handleStart (three_snapshots\<lparr>vowCheat := True\<rparr>))) = []
   \<and> snd (handleStart three_snapshots) \<noteq> []
   \<and> activation_captures be_ok init_app [] two_runs = [Blob 2]
   \<and> carried_over be_ok init_app [] two_runs = []
   \<and> set (uploaded (snd (step be_ok (fst (run be_ok init_app two_runs)) ClickSave))) \<subseteq> {Blob 2}
   \<and> uploaded (snd (step be_ok (fst (run be_ok init_app two_runs)) ClickSave)) = [Blob 2]"
proof -
  have a: "snd (handleStart (three_snapshots\<lparr>vowCheat := True\<rparr>)) = []"
    "snd (handleStart three_snapshots) \<noteq> []"
    by (simp_all add: handleStart_def three_snapshots_def init_def)
  have c: "activation_captures be_ok init_app [] two_runs = [Blob 2]"
    "carried_over be_ok init_app [] two_runs = []"
    by (simp_all add: two_runs_def init_app_def init_def step_def handleStart_def handlePause_def
        tick_def captureSnapshot_def Let_def)
  have u: "uploaded (snd (step be_ok (fst (run be_ok init_app two_runs)) ClickSave)) = [Blob 2]"
    by (simp add: two_runs_def init_app_def init_def step_def handleStart_def handlePause_def
        tick_def captureSnapshot_def handleComplete_def be_ok_def Let_def)
  from evidence_from_last_activation[of "three_snapshots\<lparr>vowCheat := True\<rparr>" be_ok two_runs ClickSave]
    evidence_from_last_activation[of three_snapshots be_ok two_runs ClickSave] a c u
  show ?thesis by simp
qed

theorem evidence_carried_over_counterexample:
  "uploaded (snd (step be_ok (fst (run be_ok init_app carried_run)) ClickSave)) = [Blob 1]
   \<and> updates (snd (step be_ok (fst (run be_ok init_app carried_run)) ClickSave))
        = [(7, [''p/u_7_0.png''])]
   \<and> activation_captures be_ok init_app [] carried_run = []
   \<and> carried_over be_ok init_app [] carried_run = [Blob 1]"
  by (simp add: carried_run_def init_app_def init_def step_def handleStart_def handlePause_def
      tick_def captureSnapshot_def handleComplete_def be_ok_def Let_def toString.simps
      digit_char_def)

section \<open>Properties of the ranking\<close>

subsection \<open>Sorting and numbering\<close>

lemma insert_by_insort:
  "insert_by (\<lambda>a b. f b - f a) x ys = insort_key (\<lambda>e. - f e) x ys"
  by (induction ys) simp_all

lemma array_sort_sort_key:
  "array_sort (\<lambda>a b. f b - f a) xs = sort_key (\<lambda>e. - f e) xs"
  by (induction xs) (simp_all add: array_sort_def insert_by_insort)

lemma array_sort_mset: "mset (array_sort (\<lambda>a b. f b - f a) xs) = mset xs"
  by (simp add: array_sort_sort_key)

lemma array_sort_length: "length (array_sort (\<lambda>a b. f b - f a) xs) = length xs"
  by (simp add: array_sort_sort_key)

lemma array_sort_set: "set (array_sort (\<lambda>a b. f b - f a) xs) = set xs"
  by (simp add: array_sort_sort_key)

lemma array_sort_descending:
  "sorted_wrt (\<ge>) (map f (array_sort (\<lambda>a b. f b - f a) xs))"
proof -
  have "sorted (map (\<lambda>e. - f e) (sort_key (\<lambda>e. - f e) xs))"
    by (rule sorted_sort_key)
  then show ?thesis
    by (simp add: array_sort_sort_key sorted_wrt_map)
qed

lemma array_sort_stable:
  "filter (\<lambda>e. f e = v) (array_sort (\<lambda>a b. f b - f a) xs) = filter (\<lambda>e. f e = v) xs"
  using sort_key_stable[of "\<lambda>e. - f e" "- v" xs]
  by (simp add: array_sort_sort_key)

lemma array_sort_map_mset:
  "mset (map g (array_sort (\<lambda>a b. f b - f a) xs)) = mset (map g xs)"
  by (simp add: array_sort_mset)

lemma array_sort_distinct_keys:
  "distinct (map g (array_sort (\<lambda>a b. f b - f a) xs)) = distinct (map g xs)"
  using array_sort_map_mset[of g f xs] by (rule mset_eq_imp_distinct_iff)

lemma array_sort_sum:
  fixes g :: "'a \<Rightarrow> int"
  shows "sum_list (map g (array_sort (\<lambda>a b. f b - f a) xs)) = sum_list (map g xs)"
proof -
  have "sum_mset (mset (map g (array_sort (\<lambda>a b. f b - f a) xs))) = sum_mset (mset (map g xs))"
    by (simp only: array_sort_map_mset)
  then show ?thesis by (simp only: sum_mset_sum_list)
qed

lemma add_rank_length: "length (add_rank es) = length es"
  by (simp add: add_rank_def)

lemma add_rank_entries: "map (\<lambda>e. (fst e, fst (snd e))) (add_rank es) = es"
proof -
  have "(\<lambda>e. (fst e, fst (snd e))) \<circ> (\<lambda>(i, (u, v)). (u, v, i + 1)) = (snd :: nat \<times> string \<times> int \<Rightarrow> _)"
    by (auto simp add: fun_eq_iff)
  then have "map (\<lambda>e. (fst e, fst (snd e))) (add_rank es) = map snd (enumerate 0 es)"
    by (simp add: add_rank_def)
  then show ?thesis by simp
qed

lemma add_rank_ranks: "map (\<lambda>e. snd (snd e)) (add_rank es) = [1..<length es + 1]"
proof -
  have "(\<lambda>e. snd (snd e)) \<circ> (\<lambda>(i, (u, v)). (u, v, i + 1)) = (Suc \<circ> fst :: nat \<times> string \<times> int \<Rightarrow> _)"
    by (auto simp add: fun_eq_iff)
  then have "map (\<lambda>e. snd (snd e)) (add_rank es) = map (Suc \<circ> fst) (enumerate 0 es)"
    by (simp add: add_rank_def)
  also have "\<dots> = map Suc (map fst (enumerate 0 es))" by (simp only: map_map)
  also have "\<dots> = map Suc [0..<length es]" by (simp only: map_fst_enumerate add_0)
  also have "\<dots> = [1..<length es + 1]" by (simp add: map_Suc_upt)
  finally show ?thesis .
qed

subsection \<open>Grouping\<close>

lemma foldl_sum: "foldl (\<lambda>sum d. sum + d) a ds = a + sum_list ds" for a :: int
  by (induction ds arbitrary: a) simp_all

lemma stats_snoc:
  "stats (planks @ [p]) =
     AList.update (user_id p)
       ((case map_of (stats planks) (user_id p) of None \<Rightarrow> [] | Some ds \<Rightarrow> ds) @ [duration_s p])
       (stats planks)"
  by (simp add: stats_def)

lemma totals_snoc:
  "totals (planks @ [p]) =
     AList.update (user_id p)
       ((case map_of (totals planks) (user_id p) of None \<Rightarrow> 0 | Some t \<Rightarrow> t) + duration_s p)
       (totals planks)"
  by (simp add: totals_def)

lemma stats_keys:
  "distinct (map fst (stats planks)) \<and> set (map fst (stats planks)) = user_id ` set planks"
proof (induction planks rule: rev_induct)
  case Nil
  then show ?case by (simp add: stats_def)
next
  case (snoc p planks)
  then show ?case
    by (auto simp add: stats_snoc distinct_update dom_update)
qed

lemma update_map_value:
  "map (\<lambda>(k, x). (k, h x)) (AList.update k v al) = AList.update k (h v) (map (\<lambda>(k, x). (k, h x)) al)"
  by (induction al) auto

lemma map_of_map_value:
  "map_of (map (\<lambda>(k, x). (k, h x)) al) k = map_option h (map_of al k)"
  by (induction al) auto

lemma totals_stats: "totals planks = map (\<lambda>(uid, ds). (uid, sum_list ds)) (stats planks)"
proof (induction planks rule: rev_induct)
  case Nil
  then show ?case by (simp add: stats_def totals_def)
next
  case (snoc p planks)
  show ?case
    by (simp add: stats_snoc totals_snoc snoc.IH update_map_value map_of_map_value
        split: option.splits)
qed

lemma update_sum:
  fixes al :: "('k \<times> int) list"
  shows "distinct (map fst al) \<Longrightarrow>
    sum_list (map snd (AList.update k v al))
      = sum_list (map snd al) - (case map_of al k of None \<Rightarrow> 0 | Some t \<Rightarrow> t) + v"
proof (induction al)
  case Nil
  then show ?case by simp
next
  case (Cons a al)
  then show ?case
    by (cases a) (auto simp add: map_of_eq_None_iff image_iff split: option.splits)
qed

lemma totals_keys:
  "distinct (map fst (totals planks)) \<and> set (map fst (totals planks)) = user_id ` set planks"
proof -
  have "map fst (totals planks) = map fst (stats planks)"
    by (simp add: totals_stats case_prod_beta comp_def)
  then show ?thesis using stats_keys[of planks] by simp
qed

lemma totals_sum: "sum_list (map snd (totals planks)) = sum_list (map duration_s planks)"
proof (induction planks rule: rev_induct)
  case Nil
  then show ?case by (simp add: totals_def)
next
  case (snoc p planks)
  have "distinct (map fst (totals planks))" using totals_keys[of planks] by simp
  from update_sum[OF this] snoc.IH show ?case
    by (simp add: totals_snoc split: option.splits)
qed


lemma totalArr_totals: "totalArr planks = add_rank (sorted_totals planks)"
proof -
  have "(\<lambda>(uid :: string, durations). (uid, foldl (\<lambda>sum d. sum + d) (0 :: int) durations))
          = (\<lambda>(uid, ds). (uid, sum_list ds))"
    by (simp add: foldl_sum)
  then show ?thesis
    by (simp add: totalArr_def sorted_totals_def totals_stats)
qed

lemma best_keys:
  "map fst (map (\<lambda>(uid, durations). (uid, math_max durations)) (stats planks))
     = map fst (stats planks)"
  by (simp add: case_prod_beta comp_def)

lemma ranked_props:
  fixes es :: "(string \<times> int) list"
  assumes "distinct (map fst es)" and "set (map fst es) = U"
  shows "length (add_rank (array_sort (\<lambda>a b. snd b - snd a) es)) = card U
    \<and> map (\<lambda>e. snd (snd e)) (add_rank (array_sort (\<lambda>a b. snd b - snd a) es)) = [1..<card U + 1]
    \<and> sorted_wrt (\<ge>) (map (\<lambda>e. fst (snd e)) (add_rank (array_sort (\<lambda>a b. snd b - snd a) es)))
    \<and> distinct (map fst (add_rank (array_sort (\<lambda>a b. snd b - snd a) es)))
    \<and> set (map fst (add_rank (array_sort (\<lambda>a b. snd b - snd a) es))) = U
    \<and> filter (\<lambda>e. snd e = v)
         (map (\<lambda>e. (fst e, fst (snd e))) (add_rank (array_sort (\<lambda>a b. snd b - snd a) es)))
       = filter (\<lambda>e. snd e = v) es"
proof -
  let ?srt = "array_sort (\<lambda>a b. snd b - snd a) es"
  let ?out = "add_rank ?srt"
  have n: "length es = card U"
    using assms distinct_card[of "map fst es"] by simp
  have ent: "map (\<lambda>e. (fst e, fst (snd e))) ?out = ?srt" by (rule add_rank_entries)
  have vals: "map (\<lambda>e. fst (snd e)) ?out = map snd ?srt"
  proof -
    have "map snd (map (\<lambda>e. (fst e, fst (snd e))) ?out) = map snd ?srt" by (simp only: ent)
    then show ?thesis by (simp add: comp_def)
  qed
  have keys: "map fst ?out = map fst ?srt"
  proof -
    have "map fst (map (\<lambda>e. (fst e, fst (snd e))) ?out) = map fst ?srt" by (simp only: ent)
    then show ?thesis by (simp add: comp_def)
  qed
  have 1: "length ?out = card U" by (simp add: add_rank_length array_sort_length n)
  have 2: "map (\<lambda>e. snd (snd e)) ?out = [1..<card U + 1]"
    by (simp only: add_rank_ranks array_sort_length n)
  have 3: "sorted_wrt (\<ge>) (map (\<lambda>e. fst (snd e)) ?out)"
    by (simp only: vals array_sort_descending)
  have 4: "distinct (map fst ?out)"
    using assms(1) by (simp only: keys array_sort_distinct_keys)
  have "set (map fst ?srt) = set (map fst es)"
    by (simp add: array_sort_set)
  then have 5: "set (map fst ?out) = U" using assms(2) by (simp only: keys)
  have 6: "filter (\<lambda>e. snd e = v) (map (\<lambda>e. (fst e, fst (snd e))) ?out) = filter (\<lambda>e. snd e = v) es"
    by (simp only: ent array_sort_stable)
  from 1 2 3 4 5 6 show ?thesis by blast
qed

subsection \<open>The example rows\<close>

lemma planks_example_stats:
  "stats planks_example = [(''a'', [10, 20]), (''b'', [30]), (''c'', [15]), (''d'', [30])]"
  by (simp add: planks_example_def stats_def)

lemma planks_example_totals:
  "totals planks_example = [(''a'', 30), (''b'', 30), (''c'', 15), (''d'', 30)]"
  by (simp add: planks_example_def totals_def)

lemma planks_example_sorted:
  "sorted_totals planks_example = [(''a'', 30), (''b'', 30), (''d'', 30), (''c'', 15)]"
  by (simp add: sorted_totals_def planks_example_totals array_sort_def)

lemma planks_example_totalArr:
  "totalArr planks_example = [(''a'', 30, 1), (''b'', 30, 2), (''d'', 30, 3), (''c'', 15, 4)]"
  by (simp add: totalArr_totals planks_example_sorted add_rank_def)

lemma planks_example_bestArr:
  "bestArr planks_example = [(''b'', 30, 1), (''d'', 30, 2), (''a'', 20, 3), (''c'', 15, 4)]"
  by (simp add: bestArr_def planks_example_stats array_sort_def add_rank_def)

lemma planks_example_ids: "user_id ` set planks_example = {''a'', ''b'', ''c'', ''d''}"
  by (auto simp add: planks_example_def)

lemma planks_example_card: "card (user_id ` set planks_example) = 4"
  by (simp add: planks_example_ids)

subsection \<open>Ranks\<close>

text \<open>
  C4. With \<open>N\<close> the number of distinct user ids among the rows, each of the three sorted
  lists (\<open>totalArr\<close>, \<open>bestArr\<close>, and the list sorted in \<open>fetchRank\<close>) has \<open>N\<close> entries, one
  per user id, in descending order of the aggregate; the ranks of \<open>totalArr\<close> and
  \<open>bestArr\<close> read \<open>1, 2, ..., N\<close> in output order; and the entries with one and the same
  aggregate \<open>v\<close> appear in the order in which the grouping step produced them.
\<close>

theorem ranks_are_positions:
  "length (totalArr planks) = card (user_id ` set planks)
   \<and> map (\<lambda>e. snd (snd e)) (totalArr planks) = [1..<card (user_id ` set planks) + 1]
   \<and> sorted_wrt (\<ge>) (map (\<lambda>e. fst (snd e)) (totalArr planks))
   \<and> distinct (map fst (totalArr planks))
   \<and> set (map fst (totalArr planks)) = user_id ` set planks
   \<and> filter (\<lambda>e. snd e = v) (map (\<lambda>e. (fst e, fst (snd e))) (totalArr planks))
       = filter (\<lambda>e. snd e = v) (totals planks)
   \<and> length (bestArr planks) = card (user_id ` set planks)
   \<and> map (\<lambda>e. snd (snd e)) (bestArr planks) = [1..<card (user_id ` set planks) + 1]
   \<and> sorted_wrt (\<ge>) (map (\<lambda>e. fst (snd e)) (bestArr planks))
   \<and> distinct (map fst (bestArr planks))
   \<and> set (map fst (bestArr planks)) = user_id ` set planks
   \<and> filter (\<lambda>e. snd e = v) (map (\<lambda>e. (fst e, fst (snd e))) (bestArr planks))
       = filter (\<lambda>e. snd e = v) (map (\<lambda>(uid, durations). (uid, math_max durations)) (stats planks))
   \<and> length (sorted_totals planks) = card (user_id ` set planks)
   \<and> sorted_wrt (\<ge>) (map snd (sorted_totals planks))
   \<and> distinct (map fst (sorted_totals planks))
   \<and> set (map fst (sorted_totals planks)) = user_id ` set planks
   \<and> filter (\<lambda>e. snd e = v) (sorted_totals planks) = filter (\<lambda>e. snd e = v) (totals planks)"
proof -
  have tk: "distinct (map fst (totals planks))" "set (map fst (totals planks)) = user_id ` set planks"
    using totals_keys[of planks] by simp_all
  have bk: "distinct (map fst (map (\<lambda>(uid, durations). (uid, math_max durations)) (stats planks)))"
    "set (map fst (map (\<lambda>(uid, durations). (uid, math_max durations)) (stats planks)))
       = user_id ` set planks"
    using stats_keys[of planks] by (simp_all only: best_keys)
  note t = ranked_props[OF tk, of v, folded sorted_totals_def, folded totalArr_totals]
  note b = ranked_props[OF bk, of v, folded bestArr_def]
  have n: "length (totals planks) = card (user_id ` set planks)"
    using tk distinct_card[of "map fst (totals planks)"] by simp
  have s1: "length (sorted_totals planks) = card (user_id ` set planks)"
    by (simp add: sorted_totals_def array_sort_length n)
  have s2: "sorted_wrt (\<ge>) (map snd (sorted_totals planks))"
    by (simp only: sorted_totals_def array_sort_descending)
  have s3: "distinct (map fst (sorted_totals planks))"
    using tk(1) by (simp only: sorted_totals_def array_sort_distinct_keys)
  have s4: "set (map fst (sorted_totals planks)) = user_id ` set planks"
    using tk(2) by (simp add: sorted_totals_def array_sort_set)
  have s5: "filter (\<lambda>e. snd e = v) (sorted_totals planks) = filter (\<lambda>e. snd e = v) (totals planks)"
    by (simp only: sorted_totals_def array_sort_stable)
  from t b s1 s2 s3 s4 s5 show ?thesis by blast
qed

theorem ranks_are_positions_witness:
  "totalArr planks_example = [(''a'', 30, 1), (''b'', 30, 2), (''d'', 30, 3), (''c'', 15, 4)]
   \<and> bestArr planks_example = [(''b'', 30, 1), (''d'', 30, 2), (''a'', 20, 3), (''c'', 15, 4)]
   \<and> card (user_id ` set planks_example) = 4
   \<and> map (\<lambda>e. snd (snd e)) (totalArr planks_example) = [1, 2, 3, 4]
   \<and> map (\<lambda>e. snd (snd e)) (bestArr planks_example) = [1, 2, 3, 4]
   \<and> filter (\<lambda>e. snd e = 30) (totals planks_example) = [(''a'', 30), (''b'', 30), (''d'', 30)]"
  using ranks_are_positions[of planks_example 30]
  by (simp add: planks_example_totalArr planks_example_bestArr planks_example_card
      planks_example_totals)

text \<open>
  C6. The totals per user add up to the sum of the durations of all rows: for the
  \<open>total_time\<close> fields of \<open>totalArr\<close>, and for the \<open>totals\<close> of \<open>fetchRank\<close> before and
  after sorting.
\<close>

theorem totals_preserve_sum:
  "sum_list (map (\<lambda>e. fst (snd e)) (totalArr planks)) = sum_list (map duration_s planks)
   \<and> sum_list (map snd (totals planks)) = sum_list (map duration_s planks)
   \<and> sum_list (map snd (sorted_totals planks)) = sum_list (map duration_s planks)"
proof -
  have s: "sum_list (map snd (sorted_totals planks)) = sum_list (map duration_s planks)"
    by (simp only: sorted_totals_def array_sort_sum totals_sum)
  have "map snd (map (\<lambda>e. (fst e, fst (snd e))) (totalArr planks)) = map snd (sorted_totals planks)"
    by (simp only: totalArr_totals add_rank_entries)
  then have "map (\<lambda>e. fst (snd e)) (totalArr planks) = map snd (sorted_totals planks)"
    by (simp add: comp_def)
  with s totals_sum[of planks] show ?thesis by simp
qed

theorem totals_preserve_sum_witness:
  "sum_list (map (\<lambda>e. fst (snd e)) (totalArr planks_example)) = 105
   \<and> sum_list (map duration_s planks_example) = 105"
  using totals_preserve_sum[of planks_example]
  by (simp add: planks_example_def)

subsection \<open>Rank and percentile of one user\<close>

lemma findIndex_range: "- 1 \<le> findIndex P xs \<and> findIndex P xs < int (length xs)"
  by (induction xs) (auto simp add: Let_def)

lemma findIndex_absent: "(findIndex P xs < 0) = (\<forall>x \<in> set xs. \<not> P x)"
  using findIndex_range[of P] by (induction xs) (auto simp add: Let_def)

lemma findIndex_found: "0 \<le> findIndex P xs \<Longrightarrow> P (xs ! nat (findIndex P xs))"
proof (induction xs)
  case Nil
  then show ?case by simp
next
  case (Cons x xs)
  show ?case
  proof (cases "P x")
    case True
    then show ?thesis by simp
  next
    case False
    with Cons.prems have r: "0 \<le> findIndex P xs"
      by (simp add: Let_def split: if_splits)
    with Cons.IH have "P (xs ! nat (findIndex P xs))" by simp
    moreover from r have "nat (findIndex P xs + 1) = Suc (nat (findIndex P xs))" by simp
    ultimately show ?thesis using False r by (simp add: Let_def)
  qed
qed

lemma add_rank_nth:
  "i < length es \<Longrightarrow> add_rank es ! i = (fst (es ! i), snd (es ! i), i + 1)"
  by (simp add: add_rank_def nth_enumerate_eq case_prod_beta)

lemma toFixed0_nearest:
  "0 \<le> p \<Longrightarrow> toFixed0 p = toString (nat \<lfloor>p + 1 / 2\<rfloor>)
     \<and> \<bar>rat_of_nat (nat \<lfloor>p + 1 / 2\<rfloor>) - p\<bar> \<le> 1 / 2"
proof -
  assume p: "0 \<le> p"
  then have "0 \<le> \<lfloor>p + 1 / 2\<rfloor>" by simp
  then have "rat_of_nat (nat \<lfloor>p + 1 / 2\<rfloor>) = of_int \<lfloor>p + 1 / 2\<rfloor>" by simp
  moreover have "of_int \<lfloor>p + 1 / 2\<rfloor> \<le> p + 1 / 2" "p + 1 / 2 < of_int \<lfloor>p + 1 / 2\<rfloor> + 1"
    by linarith+
  ultimately have "\<bar>rat_of_nat (nat \<lfloor>p + 1 / 2\<rfloor>) - p\<bar> \<le> 1 / 2" by linarith
  with p show ?thesis by (simp add: toFixed0_def)
qed

subsection \<open>Rounding to doubles\<close>

lemma ilog2_bounds: "0 < n \<Longrightarrow> 2 ^ ilog2 n \<le> n \<and> n < 2 ^ Suc (ilog2 n)"
proof (induction n rule: ilog2.induct)
  case (1 n)
  show ?case
  proof (cases "n < 2")
    case True
    with "1.prems" have "n = 1" by simp
    then show ?thesis by (simp add: ilog2.simps)
  next
    case False
    then have "0 < n div 2" by simp
    with "1.IH" False have ih: "2 ^ ilog2 (n div 2) \<le> n div 2" "n div 2 < 2 ^ Suc (ilog2 (n div 2))"
      by simp_all
    have e: "ilog2 n = Suc (ilog2 (n div 2))" using False by (simp add: ilog2.simps[of n])
    from ih show ?thesis unfolding e by simp linarith
  qed
qed

lemma binade_bounds:
  assumes "0 < x"
  shows "2 powi binade x \<le> x \<and> x < 2 powi (binade x + 1)"
proof (cases "1 \<le> x")
  case True
  let ?n = "nat \<lfloor>x\<rfloor>"
  from True have n: "0 < ?n" by simp
  have b: "binade x = int (ilog2 ?n)" using True by (simp add: binade_def)
  from ilog2_bounds[OF n] have lo: "2 ^ ilog2 ?n \<le> ?n" and hi: "?n < 2 ^ Suc (ilog2 ?n)"
    by simp_all
  have fx: "rat_of_nat ?n = of_int \<lfloor>x\<rfloor>" using True by simp
  have "(2::rat) ^ ilog2 ?n \<le> of_nat ?n"
    using lo by (metis of_nat_le_iff of_nat_numeral of_nat_power)
  also have "\<dots> \<le> x" unfolding fx by simp
  finally have 1: "(2::rat) ^ ilog2 ?n \<le> x" .
  from hi have "?n + 1 \<le> 2 ^ Suc (ilog2 ?n)" by simp
  then have "rat_of_nat (?n + 1) \<le> 2 ^ Suc (ilog2 ?n)"
    by (metis of_nat_le_iff of_nat_numeral of_nat_power)
  moreover have "x < rat_of_nat (?n + 1)" unfolding of_nat_add fx by simp linarith
  ultimately have 2: "x < 2 ^ Suc (ilog2 ?n)" by simp
  from 1 2 show ?thesis
    unfolding b by (simp add: power_int_add)
next
  case False
  let ?c = "nat \<lceil>1 / x\<rceil>"
  let ?m = "?c - 1"
  from False assms have gt: "1 < 1 / x" by simp
  then have "1 < \<lceil>1 / x\<rceil>" by (simp add: less_ceiling_iff)
  then have c2: "2 \<le> ?c" by linarith
  then have m: "0 < ?m" by linarith
  have b: "binade x = - int (Suc (ilog2 ?m))" using False by (simp add: binade_def)
  from ilog2_bounds[OF m] have lo: "2 ^ ilog2 ?m \<le> ?m" and hi: "?m < 2 ^ Suc (ilog2 ?m)"
    by simp_all
  have cx: "rat_of_nat ?c = of_int \<lceil>1 / x\<rceil>" using c2 by simp
  from hi c2 have "?c \<le> 2 ^ Suc (ilog2 ?m)" by simp
  then have "rat_of_nat ?c \<le> 2 ^ Suc (ilog2 ?m)"
    by (metis of_nat_le_iff of_nat_numeral of_nat_power)
  moreover have "1 / x \<le> rat_of_nat ?c" unfolding cx by simp
  ultimately have "1 / x \<le> 2 ^ Suc (ilog2 ?m)" by simp
  then have 1: "1 / 2 ^ Suc (ilog2 ?m) \<le> x"
    using assms by (simp add: field_simps)
  have A: "(2::rat) ^ ilog2 ?m \<le> of_nat ?m"
    using lo by (metis of_nat_le_iff of_nat_numeral of_nat_power)
  have B: "rat_of_nat ?m < 1 / x"
  proof -
    have "rat_of_nat ?m = of_int \<lceil>1 / x\<rceil> - 1" using c2 cx by (simp add: of_nat_diff)
    then show ?thesis by simp linarith
  qed
  from A B have "(2::rat) ^ ilog2 ?m < 1 / x" by (rule le_less_trans)
  then have 2: "x < 1 / 2 ^ ilog2 ?m"
    using assms by (simp add: field_simps)
  have neg: "(2::rat) powi (- int k) = 1 / 2 ^ k" for k
  proof -
    have "(2::rat) powi (- int k) = inverse (2 powi int k)" by (rule power_int_minus)
    also have "\<dots> = inverse (2 ^ k)" by (simp only: power_int_of_nat)
    finally show ?thesis by (simp only: inverse_eq_divide)
  qed
  have p1: "(2::rat) powi (- int (Suc (ilog2 ?m))) = 1 / 2 ^ Suc (ilog2 ?m)"
    by (rule neg)
  have "- int (Suc (ilog2 ?m)) + 1 = - int (ilog2 ?m)" by simp
  then have p2: "(2::rat) powi (- int (Suc (ilog2 ?m)) + 1) = 1 / 2 ^ ilog2 ?m"
    by (simp only: neg)
  from 1 2 show ?thesis unfolding b p1 p2 by simp
qed

lemma round_even_near: "\<bar>of_int (round_even r) - r\<bar> \<le> 1 / 2"
proof -
  have "of_int \<lfloor>r\<rfloor> \<le> r" "r < of_int \<lfloor>r\<rfloor> + 1" by linarith+
  then show ?thesis
    by (auto simp add: round_even_def Let_def abs_le_iff)
qed

lemma fl_error:
  assumes "0 < x"
  shows "\<bar>fl x - x\<bar> \<le> x / 2 ^ 53"
proof -
  let ?e = "binade x - 52"
  let ?r = "x / 2 powi ?e"
  have pos: "(0::rat) < 2 powi ?e" by simp
  have f: "fl x = of_int (round_even ?r) * 2 powi ?e"
    using assms by (simp add: fl_def Let_def)
  have "fl x - x = (of_int (round_even ?r) - ?r) * 2 powi ?e"
    using pos by (simp add: f field_simps)
  then have "\<bar>fl x - x\<bar> = \<bar>of_int (round_even ?r) - ?r\<bar> * 2 powi ?e"
    using pos by (simp add: abs_mult)
  also have "\<dots> \<le> (1 / 2) * 2 powi ?e"
    using round_even_near[of ?r] pos by (intro mult_right_mono) simp_all
  also have "\<dots> = 2 powi binade x / 2 ^ 53"
    by (simp add: power_int_diff)
  also have "\<dots> \<le> x / 2 ^ 53"
    using binade_bounds[OF assms] by (simp add: divide_right_mono)
  finally show ?thesis .
qed

lemma fl_pos: "0 < x \<Longrightarrow> 0 < fl x"
proof -
  assume x: "0 < x"
  have a: "\<bar>fl x - x\<bar> \<le> x / 2 ^ 53" by (rule fl_error[OF x])
  have b: "x / 2 ^ 53 < x" using x by simp
  from a b show ?thesis by linarith
qed

lemma percent_error:
  assumes "0 < q"
  shows "\<bar>fl (fl q * 100) - q * 100\<bar> \<le> q * 100 * 3 / 2 ^ 53"
proof -
  define d where "d = q / 2 ^ 53"
  have q1: "\<bar>fl q - q\<bar> \<le> d" unfolding d_def by (rule fl_error[OF assms])
  have dq: "d < q" unfolding d_def using assms by simp
  have fq: "0 < fl q" by (rule fl_pos[OF assms])
  then have p0: "0 < fl q * 100" by simp
  have p1: "\<bar>fl (fl q * 100) - fl q * 100\<bar> \<le> fl q * 100 / 2 ^ 53"
    by (rule fl_error[OF p0])
  from q1 dq have "fl q \<le> 2 * q" by linarith
  then have "fl q * 100 / 2 ^ 53 \<le> (2 * q) * 100 / 2 ^ 53"
    by (intro divide_right_mono mult_right_mono) simp_all
  also have "\<dots> = 200 * d" by (simp add: d_def)
  finally have p2: "\<bar>fl (fl q * 100) - fl q * 100\<bar> \<le> 200 * d"
    using p1 by linarith
  have e: "q * 100 * 3 / 2 ^ 53 = 300 * d" by (simp add: d_def)
  from p2 q1 show ?thesis unfolding e by linarith
qed

lemma fl_exact_examples:
  "fl (fl (1 / 1) * 100) = 100"
  "fl (fl (1 / 4) * 100) = 25"
  "fl (fl (1 / 3) * 100) = 2345624805922133 / 70368744177664"
  "fl (fl (23 / 40) * 100) = 8092405580431359 / 140737488355328"
  by code_simp+

text \<open>
  C5 (as amended). If the user has no row, \<open>fetchRank\<close> stores no rank and no percentile,
  and the text shown is the dash. If the user has a row, the rank is the 1-based position
  of the user's entry in the sorted totals (the rank that \<open>totalArr\<close> gives the user),
  between 1 and the number \<open>N\<close> of distinct user ids, and the percentile is the double
  \<open>(rank / N) * 100\<close>: the quotient rounded to a double, times 100, rounded again. It
  differs from the exact \<open>rank / N * 100\<close> by at most the fraction \<open>3 / 2 ^ 53\<close> of that
  value. For rank 1 it is the double \<open>(1 / N) * 100\<close>, which is exactly 100 when \<open>N = 1\<close>.
  The text shows the stored double rounded to an integer at distance at most one half,
  the larger one at a tie.
\<close>

theorem fetchRank_percentile:
  "(uid \<notin> user_id ` set planks \<longrightarrow> fetchRank uid planks = (None, None))
   \<and> (uid \<in> user_id ` set planks \<longrightarrow>
        (\<exists>rank. fetchRank uid planks
                  = (Some rank,
                     Some (fl (fl (of_int rank / of_nat (card (user_id ` set planks))) * 100)))
               \<and> 1 \<le> rank \<and> rank \<le> int (card (user_id ` set planks))
               \<and> fst (sorted_totals planks ! nat (rank - 1)) = uid
               \<and> (\<exists>t. (uid, t, nat rank) \<in> set (totalArr planks))
               \<and> \<bar>fl (fl (of_int rank / of_nat (card (user_id ` set planks))) * 100)
                    - of_int rank / of_nat (card (user_id ` set planks)) * 100\<bar>
                    \<le> of_int rank / of_nat (card (user_id ` set planks)) * 100 * 3 / 2 ^ 53))
   \<and> (fst (fetchRank uid planks) = Some 1 \<longrightarrow>
        snd (fetchRank uid planks)
          = Some (fl (fl (1 / of_nat (card (user_id ` set planks))) * 100)))
   \<and> (fst (fetchRank uid planks) = Some 1 \<and> card (user_id ` set planks) = 1 \<longrightarrow>
        snd (fetchRank uid planks) = Some 100)
   \<and> pctText None = [CHR 0xE2, CHR 0x80, CHR 0x93]
   \<and> pctText (Some p) = ''Within top '' @ toFixed0 p @ ''%''
   \<and> (0 \<le> p \<longrightarrow> toFixed0 p = toString (nat \<lfloor>p + 1 / 2\<rfloor>)
                  \<and> \<bar>rat_of_nat (nat \<lfloor>p + 1 / 2\<rfloor>) - p\<bar> \<le> 1 / 2)"
proof -
  let ?srt = "sorted_totals planks"
  let ?N = "card (user_id ` set planks)"
  let ?i = "findIndex (\<lambda>e. fst e = uid) ?srt"
  have keys: "set (map fst ?srt) = user_id ` set planks"
    using totals_keys[of planks] by (simp add: sorted_totals_def array_sort_set)
  have len: "length ?srt = ?N"
    using totals_keys[of planks] distinct_card[of "map fst (totals planks)"]
    by (simp add: sorted_totals_def array_sort_length)
  have fr: "fetchRank uid planks =
      (if 0 \<le> ?i then (Some (?i + 1), Some (fl (fl (of_int (?i + 1) / of_nat ?N) * 100)))
       else (None, None))"
    by (simp add: fetchRank_def Let_def len)
  have absent: "fetchRank uid planks = (None, None)" if "uid \<notin> user_id ` set planks"
  proof -
    from that keys have "\<forall>e \<in> set ?srt. \<not> fst e = uid" by auto
    then have "?i < 0" by (simp only: findIndex_absent)
    then show ?thesis by (simp add: fr)
  qed
  have present: "\<exists>rank. fetchRank uid planks
                  = (Some rank, Some (fl (fl (of_int rank / of_nat ?N) * 100)))
               \<and> 1 \<le> rank \<and> rank \<le> int ?N
               \<and> fst (?srt ! nat (rank - 1)) = uid
               \<and> (\<exists>t. (uid, t, nat rank) \<in> set (totalArr planks))
               \<and> \<bar>fl (fl (of_int rank / of_nat ?N) * 100) - of_int rank / of_nat ?N * 100\<bar>
                    \<le> of_int rank / of_nat ?N * 100 * 3 / 2 ^ 53"
    if "uid \<in> user_id ` set planks"
  proof -
    from that keys have "uid \<in> fst ` set ?srt" by simp
    then have "\<not> (\<forall>e \<in> set ?srt. \<not> fst e = uid)" by auto
    then have i0: "0 \<le> ?i" using findIndex_absent[of "\<lambda>e. fst e = uid" ?srt] by linarith
    have i1: "?i < int ?N" using findIndex_range[of "\<lambda>e. fst e = uid" ?srt] len by simp
    have at: "fst (?srt ! nat ?i) = uid" using findIndex_found[OF i0] .
    have lt: "nat ?i < length ?srt" using i0 i1 len by simp
    have "add_rank ?srt ! nat ?i \<in> set (add_rank ?srt)"
      using lt by (simp add: add_rank_length)
    then have "(uid, snd (?srt ! nat ?i), nat ?i + 1) \<in> set (totalArr planks)"
      using add_rank_nth[OF lt] at by (simp add: totalArr_totals)
    moreover have "nat (?i + 1) = nat ?i + 1" using i0 by simp
    ultimately have mem: "\<exists>t. (uid, t, nat (?i + 1)) \<in> set (totalArr planks)" by auto
    have "0 < ?N" using i0 i1 by linarith
    then have "(0::rat) < of_int (?i + 1) / of_nat ?N" using i0 by simp
    note err = percent_error[OF this]
    have val: "fetchRank uid planks
                 = (Some (?i + 1), Some (fl (fl (of_int (?i + 1) / of_nat ?N) * 100)))"
      using i0 by (simp add: fr)
    have lo: "1 \<le> ?i + 1" and hi: "?i + 1 \<le> int ?N" using i0 i1 by simp_all
    have at': "fst (?srt ! nat (?i + 1 - 1)) = uid" using at by simp
    from val lo hi at' mem err show ?thesis by blast
  qed
  have top: "snd (fetchRank uid planks) = Some (fl (fl (1 / of_nat ?N) * 100))"
    if "fst (fetchRank uid planks) = Some 1"
    using that by (simp add: fr split: if_splits)
  have single: "snd (fetchRank uid planks) = Some 100"
    if "fst (fetchRank uid planks) = Some 1 \<and> ?N = 1"
    using that top fl_exact_examples(1) by simp
  have dash: "pctText None = [CHR 0xE2, CHR 0x80, CHR 0x93]"
    and shown: "pctText (Some p) = ''Within top '' @ toFixed0 p @ ''%''"
    by (simp_all add: pctText_def)
  from absent present top single dash shown toFixed0_nearest[of p] show ?thesis by blast
qed

lemma planks_example_fetchRank:
  "fetchRank ''c'' planks_example = (Some 4, Some 100)"
  "fetchRank ''a'' planks_example = (Some 1, Some 25)"
  "fetchRank ''z'' planks_example = (None, None)"
  by code_simp+

theorem fetchRank_percentile_witness:
  "''z'' \<notin> user_id ` set planks_example \<and> fetchRank ''z'' planks_example = (None, None)
   \<and> ''c'' \<in> user_id ` set planks_example \<and> fetchRank ''c'' planks_example = (Some 4, Some 100)
   \<and> fetchRank ''a'' planks_example = (Some 1, Some 25)
   \<and> pctText (snd (fetchRank ''a'' planks_example)) = ''Within top 25%''
   \<and> (0::rat) \<le> 25 / 2 \<and> pctText (Some (25 / 2)) = ''Within top 13%''"
proof -
  have z: "''z'' \<notin> user_id ` set planks_example" and c: "''c'' \<in> user_id ` set planks_example"
    by (simp_all add: planks_example_ids)
  have r: "nat \<lfloor>(25::rat) / 2 + 1 / 2\<rfloor> = 13" "nat \<lfloor>(51::rat) / 2\<rfloor> = 25"
    by code_simp+
  have t: "toString 13 = ''13''" "toString 25 = ''25''"
    by (simp_all add: toString.simps digit_char_def)
  have p: "(0::rat) \<le> 25 / 2" "(0::rat) \<le> 25" by simp_all
  note half = fetchRank_percentile[of "''z''" planks_example "25 / 2"]
  note whole = fetchRank_percentile[of "''a''" planks_example 25]
  from half z have nz: "fetchRank ''z'' planks_example = (None, None)" by blast
  from half p(1) have "pctText (Some (25 / 2)) = ''Within top '' @ toFixed0 (25 / 2) @ ''%''"
    and "toFixed0 (25 / 2) = toString (nat \<lfloor>(25::rat) / 2 + 1 / 2\<rfloor>)"
    by blast+
  then have h: "pctText (Some (25 / 2)) = ''Within top 13%''" by (simp add: r t)
  from whole p(2) have "pctText (Some 25) = ''Within top '' @ toFixed0 25 @ ''%''"
    and "toFixed0 25 = toString (nat \<lfloor>(25::rat) + 1 / 2\<rfloor>)"
    by blast+
  then have w: "pctText (snd (fetchRank ''a'' planks_example)) = ''Within top 25%''"
    by (simp add: r t planks_example_fetchRank)
  from z c nz h w p planks_example_fetchRank show ?thesis by blast
qed

theorem fetchRank_percentile_counterexample:
  "fetchRank ''a'' three_users = (Some 1, Some (2345624805922133 / 70368744177664))
   \<and> card (user_id ` set three_users) = 3
   \<and> (2345624805922133 / 70368744177664 :: rat) \<noteq> 100 / 3
   \<and> fetchRank ''u23'' forty_users = (Some 23, Some (8092405580431359 / 140737488355328))
   \<and> card (user_id ` set forty_users) = 40
   \<and> (8092405580431359 / 140737488355328 :: rat) \<noteq> 23 / 40 * 100
   \<and> pctText (snd (fetchRank ''u23'' forty_users)) = ''Within top 57%''
   \<and> toFixed0 (23 / 40 * 100) = ''58''"
  by code_simp

end
